theory Spec2Isabelle
  imports Main "HOL-Library.AList" "HOL-Library.Multiset"
begin

section \<open>Data model\<close>

text \<open>
  The module registry of \<^verbatim>\<open>importmem/__init__.py\<close>. A \<^verbatim>\<open>Module\<close> object is a record.
  Python's \<^verbatim>\<open>set\<close> of strings is a list without repetitions; the order in which Python
  iterates over a set is not specified, so every function that iterates over a set takes
  an iteration order \<open>ord\<close> and walks \<open>ord xs\<close> instead of \<open>xs\<close>. The registry
  (a \<^verbatim>\<open>dict\<close>) is an association list in insertion order, which is the order in which
  Python iterates over a dict.
\<close>

datatype error =
    KeyError string
  | IndexError
  | LoopException "string list"
  | RecursionError
  | ProbeException int string
  | ImportError string

record Module =
  name :: string
  packages :: "string list"
  dependencies :: "string list"
  own_rss :: int
  total_rss :: int

type_synonym registry = "(string \<times> Module) list"

type_synonym iter_order = "string list \<Rightarrow> string list"

definition Module_init :: "string \<Rightarrow> Module" where
  "Module_init n = \<lparr>name = n, packages = [], dependencies = [], own_rss = 0, total_rss = 0\<rparr>"

definition set_add :: "string \<Rightarrow> string list \<Rightarrow> string list" where
  "set_add x xs = (if x \<in> set xs then xs else xs @ [x])"

definition set_update :: "string list \<Rightarrow> string list \<Rightarrow> string list" where
  "set_update xs ys = fold set_add ys xs"

definition set_remove :: "string \<Rightarrow> string list \<Rightarrow> error + string list" where
  "set_remove x xs = (if x \<in> set xs then Inr (removeAll x xs) else Inl (KeyError x))"

definition keys :: "registry \<Rightarrow> string set" where
  "keys modules = fst ` set modules"

text \<open>\<^verbatim>\<open>sep.join(xs)\<close>\<close>

fun join :: "string \<Rightarrow> string list \<Rightarrow> string" where
  "join sep [] = []"
| "join sep [x] = x"
| "join sep (x # y # ys) = x @ sep @ join sep (y # ys)"

text \<open>\<^verbatim>\<open>xs.index(x)\<close>, for an \<open>x\<close> that occurs in \<open>xs\<close>.\<close>

definition list_index :: "string \<Rightarrow> string list \<Rightarrow> nat" where
  "list_index x xs = length (takeWhile (\<lambda>y. y \<noteq> x) xs)"

text \<open>\<^verbatim>\<open>import_path.split(".")[0]\<close>\<close>

definition module_name_of :: "string \<Rightarrow> string" where
  "module_name_of import_path = takeWhile (\<lambda>c. c \<noteq> CHR ''.'') import_path"

section \<open>Graph builder\<close>

text \<open>
  \<^verbatim>\<open>_get_imports\<close> reads and resets the interpreter's table of loaded modules; it is
  the import tracer, taken here as a function from an import path to the list of paths
  it reports, or to the exception that the import raised.
\<close>

type_synonym tracer = "string \<Rightarrow> error + string list"

text \<open>The \<^verbatim>\<open>for import_path in _get_imports(pkg)\<close> loop: state is the queue and \<^verbatim>\<open>mod\<close>.\<close>

fun add_imports :: "string list \<Rightarrow> string list \<Rightarrow> Module \<Rightarrow> string list \<times> Module" where
  "add_imports [] queue md = (queue, md)"
| "add_imports (import_path # rest) queue md =
     (let queue' = queue @ [import_path];
          dep = module_name_of import_path
      in if dep = name md then add_imports rest queue' md
         else add_imports rest queue' (md\<lparr>dependencies := set_add dep (dependencies md)\<rparr>))"

text \<open>The body of the \<^verbatim>\<open>while queue\<close> loop, after \<^verbatim>\<open>pkg\<close> has been popped.\<close>

definition process_pkg ::
  "tracer \<Rightarrow> registry \<Rightarrow> string list \<Rightarrow> string \<Rightarrow> error + registry \<times> string list" where
  "process_pkg trace modules queue pkg =
     (let mname = module_name_of pkg;
          (md, modules1) =
            (case map_of modules mname of
               None \<Rightarrow> (Module_init mname, AList.update mname (Module_init mname) modules)
             | Some m \<Rightarrow> (m, modules))
      in if pkg \<in> set (packages md) then Inr (modules1, queue)
         else
           (case trace pkg of
              Inl e \<Rightarrow> Inl e
            | Inr imports \<Rightarrow>
                (let md1 = md\<lparr>packages := set_add pkg (packages md)\<rparr>;
                     (queue', md2) = add_imports imports queue md1
                 in Inr (AList.update mname md2 modules1, queue'))))"

text \<open>\<^verbatim>\<open>queue.pop(i)\<close>\<close>

definition pop_at :: "nat \<Rightarrow> string list \<Rightarrow> error + string \<times> string list" where
  "pop_at i queue =
     (if i < length queue then Inr (queue ! i, take i queue @ drop (Suc i) queue)
      else Inl IndexError)"

text \<open>
  The \<^verbatim>\<open>while queue\<close> loop with the position of the popped entry left open:
  \<open>pick modules queue\<close> is the index that is popped, chosen from the state of the loop.
  The loop need not end (a tracer may keep reporting new paths), so not returning is the
  value \<open>None\<close>.
\<close>

partial_function (option) build_loop ::
  "(registry \<Rightarrow> string list \<Rightarrow> nat) \<Rightarrow> tracer \<Rightarrow> registry \<Rightarrow> string list
     \<Rightarrow> (error + registry) option" where
  "build_loop pick trace modules queue =
     (if queue = [] then Some (Inr modules)
      else
        (case pop_at (pick modules queue) queue of
           Inl e \<Rightarrow> Some (Inl e)
         | Inr (pkg, queue1) \<Rightarrow>
             (case process_pkg trace modules queue1 pkg of
                Inl e \<Rightarrow> Some (Inl e)
              | Inr (modules', queue') \<Rightarrow> build_loop pick trace modules' queue')))"

declare build_loop.simps [code]

definition get_modules_any ::
  "(registry \<Rightarrow> string list \<Rightarrow> nat) \<Rightarrow> tracer \<Rightarrow> string
     \<Rightarrow> (error + registry \<times> string) option" where
  "get_modules_any pick trace root_pkg =
     (case build_loop pick trace [] [root_pkg] of
        None \<Rightarrow> None
      | Some (Inl e) \<Rightarrow> Some (Inl e)
      | Some (Inr modules) \<Rightarrow> Some (Inr (modules, module_name_of root_pkg)))"

text \<open>\<^verbatim>\<open>queue.pop()\<close> pops the last entry.\<close>

definition pop_last :: "registry \<Rightarrow> string list \<Rightarrow> nat" where
  "pop_last modules queue = length queue - 1"

definition get_modules :: "tracer \<Rightarrow> string \<Rightarrow> (error + registry \<times> string) option" where
  "get_modules trace root_pkg = get_modules_any pop_last trace root_pkg"

section \<open>Cycle collapser\<close>

text \<open>
  \<^verbatim>\<open>_detect_loop\<close> calls itself once for every name on the path, and the interpreter
  raises \<^verbatim>\<open>RecursionError\<close> at the call that goes beyond its recursion limit. \<open>room\<close> is
  the number of nested calls of \<^verbatim>\<open>_detect_loop\<close> that the limit still allows at the place
  of the call; \<open>detect_loop_deps\<close> is the \<^verbatim>\<open>for dep in modules[start_name].dependencies\<close>
  loop, with the room that is left for the calls it makes. Only this recursion is counted:
  the other calls of \<^verbatim>\<open>collapse_modules\<close> (the logger, \<^verbatim>\<open>_rename_dependency\<close>) are not
  recursive and nest a fixed, small number of frames.
\<close>

function detect_loop ::
    "nat \<Rightarrow> iter_order \<Rightarrow> registry \<Rightarrow> string \<Rightarrow> string list \<Rightarrow> error + string list option"
  and detect_loop_deps ::
    "nat \<Rightarrow> iter_order \<Rightarrow> registry \<Rightarrow> string list \<Rightarrow> string list
       \<Rightarrow> error + string list option"
  where
  "detect_loop room ord modules start_name visited =
     (if room = 0 then Inl RecursionError
      else if start_name \<in> set visited
      then Inr (Some (drop (list_index start_name visited) visited))
      else
        (case map_of modules start_name of
           None \<Rightarrow> Inl (LoopException (visited @ [start_name]))
         | Some m \<Rightarrow>
             detect_loop_deps (room - 1) ord modules (ord (dependencies m))
               (visited @ [start_name])))"
| "detect_loop_deps room ord modules [] visited = Inr None"
| "detect_loop_deps room ord modules (dep # deps) visited =
     (case detect_loop room ord modules dep visited of
        Inl e \<Rightarrow> Inl e
      | Inr (Some found) \<Rightarrow> Inr (Some found)
      | Inr None \<Rightarrow> detect_loop_deps room ord modules deps visited)"
  by pat_completeness auto
termination
proof (relation "(\<lambda>x. case x of
          Inl (room, ord, modules, start_name, visited) \<Rightarrow>
            card (fst ` set modules - set visited)
        | Inr (room, ord, modules, deps, visited) \<Rightarrow> card (fst ` set modules - set visited))
      <*mlex*> measure (\<lambda>x. case x of Inl _ \<Rightarrow> 0
                         | Inr (room, ord, modules, deps, visited) \<Rightarrow> Suc (length deps))",
    goal_cases)
  case 1
  show ?case by (simp add: wf_mlex)
next
  case (2 room ord modules start_name visited m)
  have "start_name \<in> fst ` set modules"
    using 2(3) by (metis map_of_SomeD fst_conv image_eqI)
  then have "fst ` set modules - set (visited @ [start_name])
      \<subset> fst ` set modules - set visited"
    using 2(2) by auto
  then have "card (fst ` set modules - set (visited @ [start_name]))
      < card (fst ` set modules - set visited)"
    by (intro psubset_card_mono) auto
  then show ?case by (simp add: mlex_less)
next
  case 3
  show ?case by (simp add: mlex_leq)
next
  case 4
  show ?case by (simp add: mlex_leq)
qed

text \<open>
  The collapse loop never hands \<^verbatim>\<open>None\<close> to \<^verbatim>\<open>_rename_dependency\<close>, but the function
  accepts it: the edge is then dropped.
\<close>

definition rename_in :: "string \<Rightarrow> string option \<Rightarrow> Module \<Rightarrow> Module" where
  "rename_in nm new_name md =
     (if nm \<in> set (dependencies md)
      then (case new_name of
              None \<Rightarrow> md\<lparr>dependencies := removeAll nm (dependencies md)\<rparr>
            | Some n \<Rightarrow> md\<lparr>dependencies := set_add n (removeAll nm (dependencies md))\<rparr>)
      else md)"

definition rename_dependency :: "registry \<Rightarrow> string \<Rightarrow> string option \<Rightarrow> registry" where
  "rename_dependency modules nm new_name = map (\<lambda>(k, md). (k, rename_in nm new_name md)) modules"

text \<open>
  In \<^verbatim>\<open>collapse_modules\<close> the object \<^verbatim>\<open>new_module\<close> is held both by the local variable
  and by the registry entry \<^verbatim>\<open>modules[new_module.name]\<close>, for as long as that entry is
  not deleted. The model keeps the local value and the registry; \<open>store\<close> writes a
  change of the local value through to the entry when the entry is still there.
\<close>

definition store :: "registry \<Rightarrow> Module \<Rightarrow> registry" where
  "store modules md =
     (if name md \<in> keys modules then AList.update (name md) md modules else modules)"

text \<open>The first \<^verbatim>\<open>for mod in loop\<close>: fold each member into \<^verbatim>\<open>new_module\<close>, then delete it.\<close>

fun merge_loop :: "registry \<Rightarrow> Module \<Rightarrow> string list \<Rightarrow> error + registry \<times> Module" where
  "merge_loop modules new_module [] = Inr (modules, new_module)"
| "merge_loop modules new_module (member # rest) =
     (case map_of modules member of
        None \<Rightarrow> Inl (KeyError member)
      | Some m \<Rightarrow>
          (let new_module' = new_module
                 \<lparr>packages := set_update (packages new_module) (packages m),
                  dependencies := set_update (dependencies new_module) (dependencies m)\<rparr>
           in merge_loop (AList.delete member (store modules new_module')) new_module' rest))"

text \<open>The second \<^verbatim>\<open>for mod in loop\<close>: redirect the edges and move the root.\<close>

fun rename_loop :: "registry \<Rightarrow> string \<Rightarrow> string \<Rightarrow> string list \<Rightarrow> registry \<times> string" where
  "rename_loop modules new_name start_name [] = (modules, start_name)"
| "rename_loop modules new_name start_name (member # rest) =
     rename_loop (rename_dependency modules member (Some new_name)) new_name
       (if member = start_name then new_name else start_name) rest"

text \<open>One pass of the body of \<^verbatim>\<open>while True\<close>, for the loop that was found.\<close>

definition collapse_step :: "registry \<Rightarrow> string \<Rightarrow> string list \<Rightarrow> error + registry \<times> string" where
  "collapse_step modules start_name loop =
     (let new_name = join [CHR 0x0A] loop;
          new_module = Module_init new_name;
          modules1 = AList.update new_name new_module modules
      in case merge_loop modules1 new_module loop of
           Inl e \<Rightarrow> Inl e
         | Inr (modules2, new_module2) \<Rightarrow>
             (let (modules3, start_name') = rename_loop modules2 new_name start_name loop;
                  new_module3 =
                    (case map_of modules3 new_name of Some m \<Rightarrow> m | None \<Rightarrow> new_module2)
              in case set_remove new_name (dependencies new_module3) of
                   Inl e \<Rightarrow> Inl e
                 | Inr deps \<Rightarrow>
                     Inr (store modules3 (new_module3\<lparr>dependencies := deps\<rparr>), start_name')))"

text \<open>One iteration of \<^verbatim>\<open>while True\<close>: \<open>Inr None\<close> is the \<^verbatim>\<open>break\<close>.\<close>

definition collapse_iter ::
  "nat \<Rightarrow> iter_order \<Rightarrow> registry \<Rightarrow> string \<Rightarrow> error + (registry \<times> string) option" where
  "collapse_iter room ord modules start_name =
     (case detect_loop room ord modules start_name [] of
        Inl e \<Rightarrow> Inl e
      | Inr None \<Rightarrow> Inr None
      | Inr (Some loop) \<Rightarrow>
          (case collapse_step modules start_name loop of
             Inl e \<Rightarrow> Inl e
           | Inr s \<Rightarrow> Inr (Some s)))"

partial_function (option) collapse_loop ::
  "nat \<Rightarrow> iter_order \<Rightarrow> registry \<Rightarrow> string \<Rightarrow> (error + registry \<times> string) option" where
  "collapse_loop room ord modules start_name =
     (case collapse_iter room ord modules start_name of
        Inl e \<Rightarrow> Some (Inl e)
      | Inr None \<Rightarrow> Some (Inr (modules, start_name))
      | Inr (Some (modules', start_name')) \<Rightarrow> collapse_loop room ord modules' start_name')"

declare collapse_loop.simps [code]

section \<open>Edge pruner\<close>

fun can_be_removed_loop :: "registry \<Rightarrow> string list \<Rightarrow> string \<Rightarrow> error + bool" where
  "can_be_removed_loop modules [] dependency = Inr False"
| "can_be_removed_loop modules (dep # deps) dependency =
     (if dep = dependency then can_be_removed_loop modules deps dependency
      else
        (case map_of modules dep of
           None \<Rightarrow> Inl (KeyError dep)
         | Some d \<Rightarrow>
             if dependency \<in> set (dependencies d) then Inr True
             else can_be_removed_loop modules deps dependency))"

definition dependency_can_be_removed ::
  "iter_order \<Rightarrow> registry \<Rightarrow> string \<Rightarrow> string \<Rightarrow> error + bool" where
  "dependency_can_be_removed ord modules nm dependency =
     (case map_of modules nm of
        None \<Rightarrow> Inl (KeyError nm)
      | Some m \<Rightarrow> can_be_removed_loop modules (ord (dependencies m)) dependency)"

text \<open>The \<^verbatim>\<open>for dep in modules[mod_name].dependencies\<close> loop that sets \<^verbatim>\<open>eliminate\<close>.\<close>

fun find_eliminate ::
  "iter_order \<Rightarrow> registry \<Rightarrow> string \<Rightarrow> string list \<Rightarrow> error + string option" where
  "find_eliminate ord modules mod_name [] = Inr None"
| "find_eliminate ord modules mod_name (dep # deps) =
     (case dependency_can_be_removed ord modules mod_name dep of
        Inl e \<Rightarrow> Inl e
      | Inr True \<Rightarrow> Inr (Some dep)
      | Inr False \<Rightarrow> find_eliminate ord modules mod_name deps)"

text \<open>The inner \<^verbatim>\<open>while True\<close>: every pass removes one dependency, so it ends.\<close>

function eliminate_loop :: "iter_order \<Rightarrow> registry \<Rightarrow> string \<Rightarrow> error + registry" where
  "eliminate_loop ord modules mod_name =
     (case map_of modules mod_name of
        None \<Rightarrow> Inl (KeyError mod_name)
      | Some m \<Rightarrow>
          (case find_eliminate ord modules mod_name (ord (dependencies m)) of
             Inl e \<Rightarrow> Inl e
           | Inr None \<Rightarrow> Inr modules
           | Inr (Some eliminate) \<Rightarrow>
               (case set_remove eliminate (dependencies m) of
                  Inl e \<Rightarrow> Inl e
                | Inr deps \<Rightarrow>
                    eliminate_loop ord
                      (AList.update mod_name (m\<lparr>dependencies := deps\<rparr>) modules) mod_name)))"
  by pat_completeness auto
termination
proof (relation "measure (\<lambda>(ord, modules, mod_name).
    case map_of modules mod_name of None \<Rightarrow> 0 | Some m \<Rightarrow> length (dependencies m))", goal_cases)
  case 1
  show ?case by simp
next
  case (2 ord modules mod_name m r eliminate deps)
  then show ?case
    by (auto simp: set_remove_def update_conv' length_removeAll_less split: if_splits)
qed

text \<open>
  The \<^verbatim>\<open>while queue\<close> loop of the pruning phase. On a graph with a cycle it does not end:
  not returning is the value \<open>None\<close>.
\<close>

partial_function (option) prune_loop ::
  "iter_order \<Rightarrow> registry \<Rightarrow> string list \<Rightarrow> (error + registry) option" where
  "prune_loop ord modules queue =
     (if queue = [] then Some (Inr modules)
      else
        (case eliminate_loop ord modules (last queue) of
           Inl e \<Rightarrow> Some (Inl e)
         | Inr modules' \<Rightarrow>
             (case map_of modules' (last queue) of
                None \<Rightarrow> Some (Inl (KeyError (last queue)))
              | Some m \<Rightarrow> prune_loop ord modules' (butlast queue @ ord (dependencies m)))))"

declare prune_loop.simps [code]

definition prune :: "iter_order \<Rightarrow> registry \<Rightarrow> string \<Rightarrow> (error + registry) option" where
  "prune ord modules start_name = prune_loop ord modules [start_name]"

text \<open>
  \<^verbatim>\<open>collapse_modules\<close> changes the registry in place and returns nothing; the model
  returns the registry it leaves behind.
\<close>

definition collapse_modules ::
  "nat \<Rightarrow> iter_order \<Rightarrow> registry \<Rightarrow> string \<Rightarrow> (error + registry) option" where
  "collapse_modules room ord modules start_name =
     (case collapse_loop room ord modules start_name of
        None \<Rightarrow> None
      | Some (Inl e) \<Rightarrow> Some (Inl e)
      | Some (Inr (modules', start_name')) \<Rightarrow> prune ord modules' start_name')"

section \<open>Memory attributor\<close>

text \<open>
  \<^verbatim>\<open>_imports_memory_usage\<close> starts a Python process on a script and reads the wait status
  and the peak resident set size from \<^verbatim>\<open>os.wait4\<close>. The process is outside the program:
  \<open>run\<close> takes the script and the state of the world and gives the pair
  (wait status, \<^verbatim>\<open>ru_maxrss\<close>) and the next state of the world, so two probes of the same
  script may differ.
\<close>

type_synonym 'w runner = "string \<Rightarrow> 'w \<Rightarrow> (int \<times> int) \<times> 'w"

definition imports_memory_usage ::
  "iter_order \<Rightarrow> 'w runner \<Rightarrow> string list \<Rightarrow> 'w \<Rightarrow> (error + int) \<times> 'w" where
  "imports_memory_usage ord run imports w =
     (let script = join '';'' (map (\<lambda>i. ''import '' @ i) (ord imports));
          ((waitstatus, ru_maxrss), w') = run script w
      in if waitstatus \<noteq> 0 then (Inl (ProbeException waitstatus script), w')
         else (Inr ru_maxrss, w'))"

text \<open>The records that \<^verbatim>\<open>logger.warning\<close> receives: the module and its negative own RSS.\<close>

datatype warning = NegativeOwnRss string int

text \<open>The \<^verbatim>\<open>for dep in modules[name].dependencies\<close> loop that fills \<^verbatim>\<open>deps\<close>.\<close>

fun gather_deps :: "registry \<Rightarrow> string list \<Rightarrow> string list \<Rightarrow> error + string list" where
  "gather_deps modules [] deps = Inr deps"
| "gather_deps modules (dep # rest) deps =
     (case map_of modules dep of
        None \<Rightarrow> Inl (KeyError dep)
      | Some d \<Rightarrow> gather_deps modules rest (set_update deps (packages d)))"

definition set_rss_for_module ::
  "iter_order \<Rightarrow> 'w runner \<Rightarrow> registry \<Rightarrow> string \<Rightarrow> 'w \<Rightarrow> warning list
     \<Rightarrow> error + registry \<times> 'w \<times> warning list" where
  "set_rss_for_module ord run modules nm w warnings =
     (case map_of modules nm of
        None \<Rightarrow> Inl (KeyError nm)
      | Some m \<Rightarrow>
          (case imports_memory_usage ord run (packages m) w of
             (Inl e, w1) \<Rightarrow> Inl e
           | (Inr tot, w1) \<Rightarrow>
               (let m1 = m\<lparr>total_rss := tot\<rparr>;
                    modules1 = AList.update nm m1 modules
                in case gather_deps modules1 (ord (dependencies m1)) [] of
                     Inl e \<Rightarrow> Inl e
                   | Inr deps \<Rightarrow>
                       (case imports_memory_usage ord run deps w1 of
                          (Inl e, w2) \<Rightarrow> Inl e
                        | (Inr deps_rss, w2) \<Rightarrow>
                            (let own = tot - deps_rss
                             in if own < 0
                                then Inr (AList.update nm (m1\<lparr>own_rss := 0\<rparr>) modules1, w2,
                                          warnings @ [NegativeOwnRss nm own])
                                else Inr (AList.update nm (m1\<lparr>own_rss := own\<rparr>) modules1, w2,
                                          warnings))))))"

text \<open>\<^verbatim>\<open>for name in modules\<close>, over the names that are left.\<close>

fun set_rss_loop ::
  "iter_order \<Rightarrow> 'w runner \<Rightarrow> string list \<Rightarrow> registry \<Rightarrow> 'w \<Rightarrow> warning list
     \<Rightarrow> error + registry \<times> 'w \<times> warning list" where
  "set_rss_loop ord run [] modules w warnings = Inr (modules, w, warnings)"
| "set_rss_loop ord run (nm # rest) modules w warnings =
     (case set_rss_for_module ord run modules nm w warnings of
        Inl e \<Rightarrow> Inl e
      | Inr (modules', w', warnings') \<Rightarrow> set_rss_loop ord run rest modules' w' warnings')"

definition set_rss_for_modules ::
  "iter_order \<Rightarrow> 'w runner \<Rightarrow> registry \<Rightarrow> 'w \<Rightarrow> error + registry \<times> 'w \<times> warning list" where
  "set_rss_for_modules ord run modules w = set_rss_loop ord run (map fst modules) modules w []"

section \<open>Renderer: node identifiers\<close>

text \<open>\<^verbatim>\<open>"{}".format(n)\<close> for a counter \<open>n\<close> that is not negative.\<close>

function show_nat :: "nat \<Rightarrow> string" where
  "show_nat n =
     (if n < 10 then [''0123456789'' ! n]
      else show_nat (n div 10) @ [''0123456789'' ! (n mod 10)])"
  by pat_completeness auto
termination
  by (relation "measure id") auto

text \<open>The characters that \<^verbatim>\<open>[^0-9A-Za-z_]\<close> does not match.\<close>

definition dot_char_ok :: "char \<Rightarrow> bool" where
  "dot_char_ok c \<longleftrightarrow>
     c \<in> set ''0123456789ABCDEFGHIJKLMNOPQRSTUVWXYZabcdefghijklmnopqrstuvwxyz_''"

definition dot_node_name :: "nat \<Rightarrow> string \<Rightarrow> string" where
  "dot_node_name unique_id nm =
     ''node'' @ show_nat unique_id @ ''_'' @ map (\<lambda>c. if dot_char_ok c then c else CHR ''_'') nm"

text \<open>
  The first \<^verbatim>\<open>for m in modules.values()\<close> loop of \<^verbatim>\<open>print_dot\<close>, without the label and
  the colour: it returns the node identifier at the head of each printed line and the
  dictionary \<^verbatim>\<open>node_names\<close>. The body does not assign to \<^verbatim>\<open>counter\<close>, so the next pass
  gets the same value.
\<close>

fun print_dot_nodes ::
  "nat \<Rightarrow> (string \<times> string) list \<Rightarrow> Module list \<Rightarrow> string list \<times> (string \<times> string) list" where
  "print_dot_nodes counter node_names [] = ([], node_names)"
| "print_dot_nodes counter node_names (m # rest) =
     (let node_name = dot_node_name counter (name m);
          (printed, node_names') =
             print_dot_nodes counter (AList.update (name m) node_name node_names) rest
      in (node_name # printed, node_names'))"

definition print_dot_node_ids :: "registry \<Rightarrow> string list" where
  "print_dot_node_ids modules = fst (print_dot_nodes 0 [] (map snd modules))"

section \<open>Properties of a registry\<close>

text \<open>A dict has each key once; the builder and the collapser file a module under its name.\<close>

definition wf_registry :: "registry \<Rightarrow> bool" where
  "wf_registry modules \<longleftrightarrow>
     distinct (map fst modules) \<and> (\<forall>(k, m) \<in> set modules. name m = k)"

definition no_dangling :: "registry \<Rightarrow> bool" where
  "no_dangling modules \<longleftrightarrow>
     (\<forall>(k, m) \<in> set modules. \<forall>d \<in> set (dependencies m). d \<in> keys modules)"

definition no_self_loops :: "registry \<Rightarrow> bool" where
  "no_self_loops modules \<longleftrightarrow> (\<forall>(k, m) \<in> set modules. name m \<notin> set (dependencies m))"

text \<open>The dependency edges, as \<^verbatim>\<open>modules[a].dependencies\<close> gives them.\<close>

definition edges :: "registry \<Rightarrow> (string \<times> string) set" where
  "edges modules = {(a, b). \<exists>m. map_of modules a = Some m \<and> b \<in> set (dependencies m)}"

definition reachable :: "registry \<Rightarrow> string \<Rightarrow> string \<Rightarrow> bool" where
  "reachable modules a b \<longleftrightarrow> (a, b) \<in> (edges modules)\<^sup>*"

definition cycle_free_from :: "registry \<Rightarrow> string \<Rightarrow> bool" where
  "cycle_free_from modules root \<longleftrightarrow>
     (\<forall>n. reachable modules root n \<longrightarrow> (n, n) \<notin> (edges modules)\<^sup>+)"

text \<open>An iteration order lists the elements of the set, each once.\<close>

definition iter_ok :: "iter_order \<Rightarrow> bool" where
  "iter_ok ord \<longleftrightarrow> (\<forall>xs. mset (ord xs) = mset xs)"

section \<open>Auxiliary notions\<close>

text \<open>
  What \<^verbatim>\<open>_detect_loop\<close> returns when it finds something: a list of different keys,
  each depending on the next and the last on the first.
\<close>

definition good_loop :: "registry \<Rightarrow> string list \<Rightarrow> bool" where
  "good_loop modules loop \<longleftrightarrow>
     loop \<noteq> [] \<and> distinct loop \<and> set loop \<subseteq> keys modules
     \<and> successively (\<lambda>a b. (a, b) \<in> edges modules) loop
     \<and> (last loop, hd loop) \<in> edges modules"

definition deps_of :: "registry \<Rightarrow> string \<Rightarrow> string set" where
  "deps_of modules x = (case map_of modules x of None \<Rightarrow> {} | Some m \<Rightarrow> set (dependencies m))"

definition pkgs_of :: "registry \<Rightarrow> string \<Rightarrow> string set" where
  "pkgs_of modules x = (case map_of modules x of None \<Rightarrow> {} | Some m \<Rightarrow> set (packages m))"

text \<open>What the calls of \<^verbatim>\<open>_rename_dependency\<close> for all members of a loop do to one module.\<close>

definition rename_all :: "string \<Rightarrow> string list \<Rightarrow> Module \<Rightarrow> Module" where
  "rename_all new_name loop m = fold (\<lambda>x. rename_in x (Some new_name)) loop m"

text \<open>The invariant of the registry between the phases.\<close>

definition reg_inv :: "registry \<Rightarrow> bool" where
  "reg_inv modules \<longleftrightarrow> wf_registry modules \<and> no_dangling modules \<and> no_self_loops modules"

text \<open>
  The states that the \<^verbatim>\<open>while True\<close> loop of \<^verbatim>\<open>collapse_modules\<close> passes through, from
  the state \<open>s0\<close> on: the registry and the root name after each full iteration, that is,
  each iteration in which \<^verbatim>\<open>_detect_loop\<close> returned a loop and nothing raised.
\<close>

inductive collapse_reach ::
  "nat \<Rightarrow> iter_order \<Rightarrow> registry \<times> string \<Rightarrow> registry \<times> string \<Rightarrow> bool"
  for room :: nat and ord :: iter_order and s0 :: "registry \<times> string" where
  start: "collapse_reach room ord s0 s0"
| step: "collapse_reach room ord s0 (ms, r) \<Longrightarrow> collapse_iter room ord ms r = Inr (Some s')
           \<Longrightarrow> collapse_reach room ord s0 s'"

text \<open>
  \<open>shrinks ms ms'\<close>: the registry \<open>ms'\<close> has the same keys in the same order as \<open>ms\<close>, and
  each module is the module of \<open>ms\<close> with some of its dependencies taken away.
\<close>

definition shrinks :: "registry \<Rightarrow> registry \<Rightarrow> bool" where
  "shrinks ms ms' \<longleftrightarrow>
     list_all2 (\<lambda>(k, m) (k', m'). k' = k \<and> name m' = name m \<and> packages m' = packages m
         \<and> own_rss m' = own_rss m \<and> total_rss m' = total_rss m
         \<and> set (dependencies m') \<subseteq> set (dependencies m)) ms ms'"

text \<open>
  The order in which the pruning queue shrinks: an entry is replaced by dependencies of
  it, in the graph \<open>ms0\<close> that pruning starts from.
\<close>

definition prune_order :: "registry \<Rightarrow> string \<Rightarrow> (string \<times> string) set" where
  "prune_order ms0 root = {(b, a). (a, b) \<in> edges ms0 \<and> (root, a) \<in> (edges ms0)\<^sup>*}"

text \<open>
  The invariant of the pruning queue loop: the registry \<open>ms\<close> is \<open>ms0\<close> with edges taken
  away, every edge of \<open>ms0\<close> is still a path of \<open>ms\<close>, and the queue holds names that
  the root reaches.
\<close>

definition prune_inv :: "registry \<Rightarrow> string \<Rightarrow> registry \<Rightarrow> string list \<Rightarrow> bool" where
  "prune_inv ms0 root ms q \<longleftrightarrow>
     shrinks ms0 ms \<and> edges ms \<subseteq> edges ms0 \<and> edges ms0 \<subseteq> (edges ms)\<^sup>*
     \<and> (\<forall>n \<in> set q. (root, n) \<in> (edges ms0)\<^sup>*)"

text \<open>The import paths that the tracer leads to from the root package.\<close>

inductive_set traced :: "tracer \<Rightarrow> string \<Rightarrow> string set"
  for trace :: tracer and root_pkg :: string where
  root: "root_pkg \<in> traced trace root_pkg"
| step: "p \<in> traced trace root_pkg \<Longrightarrow> trace p = Inr l \<Longrightarrow> p' \<in> set l
           \<Longrightarrow> p' \<in> traced trace root_pkg"

text \<open>The import paths already recorded in some module's \<^verbatim>\<open>packages\<close>.\<close>

definition processed :: "registry \<Rightarrow> string set" where
  "processed modules = {p. \<exists>k m. map_of modules k = Some m \<and> p \<in> set (packages m)}"

text \<open>The modules that the module \<open>k\<close> depends on, when its packages are \<open>P\<close>.\<close>

definition dep_targets :: "tracer \<Rightarrow> string \<Rightarrow> string set \<Rightarrow> string set" where
  "dep_targets trace k P =
     {d. \<exists>p l p'. p \<in> P \<and> trace p = Inr l \<and> p' \<in> set l \<and> d = module_name_of p' \<and> d \<noteq> k}"

text \<open>The invariant of the \<^verbatim>\<open>while queue\<close> loop of \<^verbatim>\<open>get_modules\<close>.\<close>

definition build_inv :: "tracer \<Rightarrow> string \<Rightarrow> registry \<Rightarrow> string list \<Rightarrow> bool" where
  "build_inv trace root_pkg modules queue \<longleftrightarrow>
     distinct (map fst modules)
     \<and> (\<forall>k m. map_of modules k = Some m \<longrightarrow>
           name m = k \<and> own_rss m = 0 \<and> total_rss m = 0 \<and> packages m \<noteq> []
           \<and> (\<forall>p \<in> set (packages m). module_name_of p = k)
           \<and> set (dependencies m) = dep_targets trace k (set (packages m)))
     \<and> processed modules \<subseteq> traced trace root_pkg
     \<and> set queue \<subseteq> traced trace root_pkg
     \<and> (\<forall>p \<in> processed modules. \<exists>l. trace p = Inr l \<and> set l \<subseteq> processed modules \<union> set queue)
     \<and> root_pkg \<in> processed modules \<union> set queue"

text \<open>Two registries that describe the same graph: the same names, and under each name
  the same set of packages and the same set of dependencies.\<close>

definition same_graph :: "registry \<Rightarrow> registry \<Rightarrow> bool" where
  "same_graph ms1 ms2 \<longleftrightarrow>
     keys ms1 = keys ms2
     \<and> (\<forall>k. map_option name (map_of ms1 k) = map_option name (map_of ms2 k)
             \<and> pkgs_of ms1 k = pkgs_of ms2 k \<and> deps_of ms1 k = deps_of ms2 k)"

text \<open>A way of choosing the queue entry to pop is valid when it stays inside the queue.\<close>

definition pick_ok :: "(registry \<Rightarrow> string list \<Rightarrow> nat) \<Rightarrow> bool" where
  "pick_ok pick \<longleftrightarrow> (\<forall>ms q. q \<noteq> [] \<longrightarrow> pick ms q < length q)"

text \<open>The module object \<^verbatim>\<open>mod\<close> that the body of the \<^verbatim>\<open>while queue\<close> loop works on.\<close>

definition cur_module :: "registry \<Rightarrow> string \<Rightarrow> Module" where
  "cur_module modules mn = (case map_of modules mn of None \<Rightarrow> Module_init mn | Some m \<Rightarrow> m)"

section \<open>Example inputs\<close>

text \<open>
  A probe whose reading depends on when it runs: the empty script reads 0, any other script
  reads 100 plus the number of probes run before it.
\<close>

definition ex_probe :: "nat runner" where
  "ex_probe script w = (if script = [] then ((0, 0), Suc w) else ((0, 100 + int w), Suc w))"

text \<open>A probe that reads 100 for the script \<^verbatim>\<open>import a\<close> and 120 for every other script.\<close>

definition ex_noisy_probe :: "nat runner" where
  "ex_noisy_probe script w =
     (if script = ''import a'' then ((0, 100), Suc w) else ((0, 120), Suc w))"

definition ex_leaf :: registry where
  "ex_leaf =
     [(''b'', \<lparr>name = ''b'', packages = [''b'', ''b.c''], dependencies = [],
               own_rss = 0, total_rss = 0\<rparr>)]"

definition ex_pair :: registry where
  "ex_pair =
     [(''a'', \<lparr>name = ''a'', packages = [''a''], dependencies = [''b''],
               own_rss = 0, total_rss = 0\<rparr>),
      (''b'', \<lparr>name = ''b'', packages = [''b''], dependencies = [],
               own_rss = 0, total_rss = 0\<rparr>)]"

text \<open>
  A registry after a collapse of the cycle of \<^verbatim>\<open>A\<close> and \<^verbatim>\<open>B\<close>, next to a module
  whose own name is \<^verbatim>\<open>A_B\<close>.
\<close>

definition ex_clash :: registry where
  "ex_clash =
     [(''A'' @ [CHR 0x0A] @ ''B'',
        \<lparr>name = ''A'' @ [CHR 0x0A] @ ''B'', packages = [''A'', ''B''], dependencies = [],
          own_rss = 0, total_rss = 0\<rparr>),
      (''A_B'',
        \<lparr>name = ''A_B'', packages = [''A_B''], dependencies = [],
          own_rss = 0, total_rss = 0\<rparr>)]"

text \<open>A root \<^verbatim>\<open>a\<close> on a cycle that holds a smaller cycle of \<^verbatim>\<open>b\<close> and \<^verbatim>\<open>c\<close>.\<close>

definition ex_cycle :: registry where
  "ex_cycle =
     [(''a'', \<lparr>name = ''a'', packages = [''a''], dependencies = [''b''],
               own_rss = 0, total_rss = 0\<rparr>),
      (''b'', \<lparr>name = ''b'', packages = [''b'', ''b.x''], dependencies = [''c''],
               own_rss = 0, total_rss = 0\<rparr>),
      (''c'', \<lparr>name = ''c'', packages = [''c''], dependencies = [''b'', ''a''],
               own_rss = 0, total_rss = 0\<rparr>)]"

text \<open>
  A ring of \<open>n\<close> modules \<^verbatim>\<open>m\<close>, \<^verbatim>\<open>mm\<close>, \<^verbatim>\<open>mmm\<close>, ...: each depends on the next one and
  the last one on the first.
\<close>

definition ring_name :: "nat \<Rightarrow> string" where
  "ring_name i = replicate (Suc i) CHR ''m''"

definition ring_module :: "nat \<Rightarrow> nat \<Rightarrow> Module" where
  "ring_module n i =
     \<lparr>name = ring_name i, packages = [ring_name i],
       dependencies = [ring_name (Suc i mod n)], own_rss = 0, total_rss = 0\<rparr>"

definition ring :: "nat \<Rightarrow> registry" where
  "ring n = map (\<lambda>i. (ring_name i, ring_module n i)) [0..<n]"

definition ex_cycle_collapsed :: registry where
  "ex_cycle_collapsed =
     [(''a'' @ [CHR 0x0A] @ ''b'' @ [CHR 0x0A] @ ''c'',
       \<lparr>name = ''a'' @ [CHR 0x0A] @ ''b'' @ [CHR 0x0A] @ ''c'',
         packages = [''a'', ''b'', ''b.x'', ''c''], dependencies = [],
         own_rss = 0, total_rss = 0\<rparr>)]"

text \<open>Two modules that import each other.\<close>

definition ex_A :: Module where
  "ex_A = \<lparr>name = ''A'', packages = [''A'', ''A.x''], dependencies = [''B''],
            own_rss = 0, total_rss = 0\<rparr>"

definition ex_B :: Module where
  "ex_B = \<lparr>name = ''B'', packages = [''B''], dependencies = [''A''],
            own_rss = 0, total_rss = 0\<rparr>"

text \<open>The diamond with the redundant edge from \<^verbatim>\<open>A\<close> to \<^verbatim>\<open>D\<close>, and what pruning leaves of it.\<close>

definition ex_diamond :: registry where
  "ex_diamond =
     [(''A'', \<lparr>name = ''A'', packages = [''A''], dependencies = [''B'', ''C'', ''D''],
               own_rss = 0, total_rss = 0\<rparr>),
      (''B'', \<lparr>name = ''B'', packages = [''B''], dependencies = [''D''],
               own_rss = 0, total_rss = 0\<rparr>),
      (''C'', \<lparr>name = ''C'', packages = [''C''], dependencies = [''D''],
               own_rss = 0, total_rss = 0\<rparr>),
      (''D'', \<lparr>name = ''D'', packages = [''D''], dependencies = [],
               own_rss = 0, total_rss = 0\<rparr>)]"

definition ex_diamond_pruned :: registry where
  "ex_diamond_pruned =
     [(''A'', \<lparr>name = ''A'', packages = [''A''], dependencies = [''B'', ''C''],
               own_rss = 0, total_rss = 0\<rparr>),
      (''B'', \<lparr>name = ''B'', packages = [''B''], dependencies = [''D''],
               own_rss = 0, total_rss = 0\<rparr>),
      (''C'', \<lparr>name = ''C'', packages = [''C''], dependencies = [''D''],
               own_rss = 0, total_rss = 0\<rparr>),
      (''D'', \<lparr>name = ''D'', packages = [''D''], dependencies = [],
               own_rss = 0, total_rss = 0\<rparr>)]"

text \<open>
  A tracer: \<^verbatim>\<open>a\<close> imports \<^verbatim>\<open>b.x\<close>, \<^verbatim>\<open>c\<close> and \<^verbatim>\<open>d\<close>; \<^verbatim>\<open>b.x\<close> imports \<^verbatim>\<open>c\<close> and \<^verbatim>\<open>b\<close>;
  \<^verbatim>\<open>c\<close> imports \<^verbatim>\<open>b.x\<close> and \<^verbatim>\<open>d\<close>; \<^verbatim>\<open>b\<close> and \<^verbatim>\<open>d\<close> import nothing; every other import
  fails.
\<close>

definition ex_tracer :: tracer where
  "ex_tracer p =
     (if p = ''a'' then Inr [''b.x'', ''c'', ''d'']
      else if p = ''b.x'' then Inr [''c'', ''b'']
      else if p = ''c'' then Inr [''b.x'', ''d'']
      else if p = ''b'' \<or> p = ''d'' then Inr []
      else Inl (ImportError p))"

text \<open>Popping the first entry of the queue instead of the last.\<close>

definition pop_first :: "registry \<Rightarrow> string list \<Rightarrow> nat" where
  "pop_first modules queue = 0"

text \<open>
  What \<^verbatim>\<open>get_modules\<close> builds from \<open>ex_tracer\<close> and the root \<^verbatim>\<open>a\<close>, what the builder gives
  when it pops the first queue entry, and the registry after the collapse and after the
  pruning.
\<close>

definition ex_built :: registry where
  "ex_built =
     [(''a'', \<lparr>name = ''a'', packages = [''a''], dependencies = [''b'', ''c'', ''d''],
               own_rss = 0, total_rss = 0\<rparr>),
      (''d'', \<lparr>name = ''d'', packages = [''d''], dependencies = [],
               own_rss = 0, total_rss = 0\<rparr>),
      (''c'', \<lparr>name = ''c'', packages = [''c''], dependencies = [''b'', ''d''],
               own_rss = 0, total_rss = 0\<rparr>),
      (''b'', \<lparr>name = ''b'', packages = [''b.x'', ''b''], dependencies = [''c''],
               own_rss = 0, total_rss = 0\<rparr>)]"

definition ex_built_first :: registry where
  "ex_built_first =
     [(''a'', \<lparr>name = ''a'', packages = [''a''], dependencies = [''b'', ''c'', ''d''],
               own_rss = 0, total_rss = 0\<rparr>),
      (''b'', \<lparr>name = ''b'', packages = [''b.x'', ''b''], dependencies = [''c''],
               own_rss = 0, total_rss = 0\<rparr>),
      (''c'', \<lparr>name = ''c'', packages = [''c''], dependencies = [''b'', ''d''],
               own_rss = 0, total_rss = 0\<rparr>),
      (''d'', \<lparr>name = ''d'', packages = [''d''], dependencies = [],
               own_rss = 0, total_rss = 0\<rparr>)]"

definition ex_built_collapsed :: registry where
  "ex_built_collapsed =
     [(''a'', \<lparr>name = ''a'', packages = [''a''],
               dependencies = [''d'', ''b'' @ [CHR 0x0A] @ ''c''],
               own_rss = 0, total_rss = 0\<rparr>),
      (''d'', \<lparr>name = ''d'', packages = [''d''], dependencies = [],
               own_rss = 0, total_rss = 0\<rparr>),
      (''b'' @ [CHR 0x0A] @ ''c'',
         \<lparr>name = ''b'' @ [CHR 0x0A] @ ''c'', packages = [''b.x'', ''b'', ''c''],
           dependencies = [''d''], own_rss = 0, total_rss = 0\<rparr>)]"

definition ex_built_pruned :: registry where
  "ex_built_pruned =
     [(''a'', \<lparr>name = ''a'', packages = [''a''],
               dependencies = [''b'' @ [CHR 0x0A] @ ''c''],
               own_rss = 0, total_rss = 0\<rparr>),
      (''d'', \<lparr>name = ''d'', packages = [''d''], dependencies = [],
               own_rss = 0, total_rss = 0\<rparr>),
      (''b'' @ [CHR 0x0A] @ ''c'',
         \<lparr>name = ''b'' @ [CHR 0x0A] @ ''c'', packages = [''b.x'', ''b'', ''c''],
           dependencies = [''d''], own_rss = 0, total_rss = 0\<rparr>)]"

section \<open>Basic facts\<close>

lemma iter_ok_Nil: "iter_ok ord \<Longrightarrow> ord [] = []"
  by (metis iter_ok_def mset_zero_iff)

lemma iter_ok_single: "iter_ok ord \<Longrightarrow> ord [x] = [x]"
  by (metis iter_ok_def mset_single_iff_right mset.simps(1) mset.simps(2))

lemma iter_ok_set: "iter_ok ord \<Longrightarrow> set (ord xs) = set xs"
  by (metis iter_ok_def set_mset_mset)

lemma iter_ok_id: "iter_ok id"
  by (simp add: iter_ok_def)

lemma iter_ok_rev: "iter_ok rev"
  by (simp add: iter_ok_def)

lemma set_set_add [simp]: "set (set_add x xs) = insert x (set xs)"
  by (auto simp: set_add_def)

lemma set_set_update [simp]: "set (set_update xs ys) = set xs \<union> set ys"
  unfolding set_update_def by (induction ys arbitrary: xs) auto

lemma keys_update [simp]: "keys (AList.update k v ms) = insert k (keys ms)"
  by (simp add: keys_def dom_update)

lemma keys_delete [simp]: "keys (AList.delete k ms) = keys ms - {k}"
  by (induction ms) (auto simp: keys_def)

lemma keys_map_snd [simp]: "keys (map (\<lambda>(k, m). (k, f m)) ms) = keys ms"
  by (force simp: keys_def image_iff)

lemma map_fst_map_snd [simp]: "map fst (map (\<lambda>(k, m). (k, f m)) ms) = map fst ms"
  by (induction ms) auto

lemma map_of_map_snd: "map_of (map (\<lambda>(k, m). (k, f m)) ms) k = map_option f (map_of ms k)"
  by (induction ms) auto

section \<open>Cycle detection\<close>

declare detect_loop.simps [simp del]

lemma edges_iff:
  "(a, b) \<in> edges ms \<longleftrightarrow> (\<exists>m. map_of ms a = Some m \<and> b \<in> set (dependencies m))"
  by (simp add: edges_def)

lemma map_of_keys: "map_of ms k = Some m \<Longrightarrow> k \<in> keys ms"
  by (metis keys_def map_of_SomeD fst_conv image_eqI)

lemma keys_map_of: "k \<in> keys ms \<Longrightarrow> \<exists>m. map_of ms k = Some m"
  unfolding keys_def by (metis domD dom_map_of_conv_image_fst)

lemma drop_index_dropWhile: "drop (list_index x xs) xs = dropWhile (\<lambda>y. y \<noteq> x) xs"
  by (simp add: list_index_def dropWhile_eq_drop)

lemma good_loop_suffix:
  assumes "s \<in> set vis" "distinct vis" "set vis \<subseteq> keys ms"
    "successively (\<lambda>a b. (a, b) \<in> edges ms) vis" "(last vis, s) \<in> edges ms"
  shows "good_loop ms (drop (list_index s vis) vis)"
proof -
  let ?P = "\<lambda>y. y \<noteq> s"
  let ?l = "dropWhile ?P vis"
  have ne: "?l \<noteq> []" using assms(1) by (simp add: dropWhile_eq_Nil_conv) 
  have hd: "hd ?l = s" using ne hd_dropWhile[of ?P vis] by auto
  have split: "vis = takeWhile ?P vis @ ?l" by simp
  have last: "last ?l = last vis" using ne split by (metis last_appendR)
  have d: "distinct ?l" using assms(2) by (rule distinct_dropWhile)
  have sub: "set ?l \<subseteq> keys ms" using assms(3) set_dropWhileD by fastforce
  have succ: "successively (\<lambda>a b. (a, b) \<in> edges ms) ?l"
    using assms(4) split by (metis successively_append_iff)
  show ?thesis
    unfolding good_loop_def drop_index_dropWhile
    using ne hd last d sub succ assms(5) by simp
qed

lemma detect_sound:
  assumes ok: "iter_ok ord"
  shows "distinct vis \<Longrightarrow> set vis \<subseteq> keys ms
      \<Longrightarrow> successively (\<lambda>a b. (a, b) \<in> edges ms) vis
      \<Longrightarrow> (vis \<noteq> [] \<longrightarrow> (last vis, s) \<in> edges ms)
      \<Longrightarrow> detect_loop room ord ms s vis = Inr (Some loop) \<Longrightarrow> good_loop ms loop"
    and "distinct vis \<Longrightarrow> set vis \<subseteq> keys ms
      \<Longrightarrow> successively (\<lambda>a b. (a, b) \<in> edges ms) vis
      \<Longrightarrow> vis \<noteq> [] \<Longrightarrow> (\<forall>d \<in> set deps. (last vis, d) \<in> edges ms)
      \<Longrightarrow> detect_loop_deps room ord ms deps vis = Inr (Some loop) \<Longrightarrow> good_loop ms loop"
  using ok
proof (induction room ord ms s vis and room ord ms deps vis
    rule: detect_loop_detect_loop_deps.induct)
  case (1 room ord modules start_name visited)
  from "1.prems"(5) have nz: "room \<noteq> 0"
    by (auto simp: detect_loop.simps split: if_splits)
  show ?case
  proof (cases "start_name \<in> set visited")
    case True
    then have "visited \<noteq> []" by auto
    with 1 True nz show ?thesis
      by (auto simp: detect_loop.simps intro: good_loop_suffix)
  next
    case False
    then obtain m where m: "map_of modules start_name = Some m"
      and r: "detect_loop_deps (room - 1) ord modules (ord (dependencies m))
                (visited @ [start_name]) = Inr (Some loop)"
      using "1.prems"(5) nz by (auto simp: detect_loop.simps split: option.splits)
    have "good_loop modules loop"
    proof (rule "1.IH"[OF nz False m _ _ _ _ _ r])
      show "distinct (visited @ [start_name])" using False "1.prems"(1) by simp
      show "set (visited @ [start_name]) \<subseteq> keys modules"
        using "1.prems"(2) m by (auto dest: map_of_keys)
      show "successively (\<lambda>a b. (a, b) \<in> edges modules) (visited @ [start_name])"
        using "1.prems"(3,4) by (auto simp: successively_append_iff)
      show "visited @ [start_name] \<noteq> []" by simp
      show "\<forall>d\<in>set (ord (dependencies m)). (last (visited @ [start_name]), d) \<in> edges modules"
        using m "1.prems"(6) by (auto simp: edges_iff iter_ok_set)
      show "iter_ok ord" by fact
    qed
    then show ?thesis .
  qed
next
  case (2 room ord modules visited)
  then show ?case by simp
next
  case (3 room ord modules dep deps visited)
  show ?case
  proof (cases "detect_loop room ord modules dep visited")
    case (Inl e)
    with "3.prems" show ?thesis by simp
  next
    case (Inr b)
    show ?thesis
    proof (cases b)
      case None
      with Inr "3.prems" "3.IH"(2)[OF Inr None] show ?thesis by simp
    next
      case (Some found)
      with Inr "3.prems" have "found = loop" by simp
      with Inr Some "3.prems" "3.IH"(1) show ?thesis by simp
    qed
  qed
qed

lemma detect_complete:
  assumes ok: "iter_ok ord"
  shows "detect_loop room ord ms s vis = Inr None
      \<Longrightarrow> \<forall>n. (s, n) \<in> (edges ms)\<^sup>* \<longrightarrow> n \<notin> set vis \<and> (n, n) \<notin> (edges ms)\<^sup>+"
    and "detect_loop_deps room ord ms deps vis = Inr None
      \<Longrightarrow> \<forall>d \<in> set deps. \<forall>n. (d, n) \<in> (edges ms)\<^sup>* \<longrightarrow> n \<notin> set vis \<and> (n, n) \<notin> (edges ms)\<^sup>+"
  using ok
proof (induction room ord ms s vis and room ord ms deps vis
    rule: detect_loop_detect_loop_deps.induct)
  case (1 room ord modules start_name visited)
  from "1.prems"(1) have nz: "room \<noteq> 0"
    by (auto simp: detect_loop.simps split: if_splits)
  from "1.prems"(1) have nv: "start_name \<notin> set visited"
    by (auto simp: detect_loop.simps split: if_splits)
  then obtain m where m: "map_of modules start_name = Some m"
    and r: "detect_loop_deps (room - 1) ord modules (ord (dependencies m))
              (visited @ [start_name]) = Inr None"
    using "1.prems"(1) nz by (auto simp: detect_loop.simps split: option.splits)
  have ih: "\<forall>d\<in>set (dependencies m). \<forall>n. (d, n) \<in> (edges modules)\<^sup>* \<longrightarrow>
       n \<notin> set (visited @ [start_name]) \<and> (n, n) \<notin> (edges modules)\<^sup>+"
    using "1.IH"[OF nz nv m r "1.prems"(2)] by (simp add: iter_ok_set[OF "1.prems"(2)])
  have succ: "\<And>d. (start_name, d) \<in> edges modules \<Longrightarrow> d \<in> set (dependencies m)"
    using m by (auto simp: edges_iff)
  show ?case
  proof (intro allI impI)
    fix n assume "(start_name, n) \<in> (edges modules)\<^sup>*"
    then consider "n = start_name"
      | d where "(start_name, d) \<in> edges modules" "(d, n) \<in> (edges modules)\<^sup>*"
      by (auto elim: converse_rtranclE)
    then show "n \<notin> set visited \<and> (n, n) \<notin> (edges modules)\<^sup>+"
    proof cases
      case 1
      have "(start_name, start_name) \<notin> (edges modules)\<^sup>+"
      proof
        assume "(start_name, start_name) \<in> (edges modules)\<^sup>+"
        then obtain d where "(start_name, d) \<in> edges modules" "(d, start_name) \<in> (edges modules)\<^sup>*"
          by (meson tranclD)
        with ih succ show False by auto
      qed
      with 1 nv show ?thesis by simp
    next
      case 2
      with ih succ show ?thesis by auto
    qed
  qed
next
  case (2 room ord modules visited)
  then show ?case by simp
next
  case (3 room ord modules dep deps visited)
  from "3.prems"(1) have a: "detect_loop room ord modules dep visited = Inr None"
    and b: "detect_loop_deps room ord modules deps visited = Inr None"
    by (auto split: sum.splits option.splits)
  from "3.IH"(1)[OF a "3.prems"(2)] "3.IH"(2)[OF a refl b "3.prems"(2)]
  show ?case by simp
qed

lemma detect_no_error:
  assumes ok: "iter_ok ord" and nd: "no_dangling ms"
  shows "s \<in> keys ms \<Longrightarrow> card (keys ms - set vis) < room
      \<Longrightarrow> \<exists>r. detect_loop room ord ms s vis = Inr r"
    and "set deps \<subseteq> keys ms \<Longrightarrow> card (keys ms - set vis) < room
      \<Longrightarrow> \<exists>r. detect_loop_deps room ord ms deps vis = Inr r"
  using ok nd
proof (induction room ord ms s vis and room ord ms deps vis
    rule: detect_loop_detect_loop_deps.induct)
  case (1 room ord modules start_name visited)
  have nz: "room \<noteq> 0" using "1.prems"(2) by simp
  show ?case
  proof (cases "start_name \<in> set visited")
    case True
    then show ?thesis using nz by (simp add: detect_loop.simps)
  next
    case False
    obtain m where m: "map_of modules start_name = Some m"
      using "1.prems"(1) keys_map_of by blast
    have sub: "set (ord (dependencies m)) \<subseteq> keys modules"
      using m "1.prems"(3,4) by (auto simp: iter_ok_set no_dangling_def dest!: map_of_SomeD)
    have fin: "finite (keys modules - set visited)" by (simp add: keys_def)
    have "keys modules - set (visited @ [start_name]) \<subset> keys modules - set visited"
      using False "1.prems"(1) by auto
    then have "card (keys modules - set (visited @ [start_name]))
        < card (keys modules - set visited)"
      using fin by (rule psubset_card_mono[rotated])
    then have c: "card (keys modules - set (visited @ [start_name])) < room - 1"
      using "1.prems"(2) by simp
    from "1.IH"[OF nz False m sub c "1.prems"(3,4)] False m nz show ?thesis
      by (simp add: detect_loop.simps)
  qed
next
  case (2 room ord modules visited)
  then show ?case by simp
next
  case (3 room ord modules dep deps visited)
  then show ?case by (auto split: sum.splits option.splits)
qed

section \<open>Registries as maps\<close>

lemma keys_dom: "keys ms = dom (map_of ms)"
  by (simp add: keys_def dom_map_of_conv_image_fst)

lemma wf_map_of_iff: "wf_registry ms \<Longrightarrow> (k, m) \<in> set ms \<longleftrightarrow> map_of ms k = Some m"
  by (simp add: wf_registry_def)

lemma wf_name: "wf_registry ms \<Longrightarrow> map_of ms k = Some m \<Longrightarrow> name m = k"
  by (auto simp: wf_registry_def dest!: map_of_SomeD)

lemma wf_registry_alt:
  "wf_registry ms \<longleftrightarrow> distinct (map fst ms) \<and> (\<forall>k m. map_of ms k = Some m \<longrightarrow> name m = k)"
  by (auto simp: wf_registry_def dest!: map_of_SomeD)

lemma no_dangling_alt:
  "distinct (map fst ms) \<Longrightarrow>
   no_dangling ms \<longleftrightarrow> (\<forall>k m. map_of ms k = Some m \<longrightarrow> set (dependencies m) \<subseteq> keys ms)"
  by (auto simp: no_dangling_def)

lemma no_self_loops_alt:
  "distinct (map fst ms) \<Longrightarrow>
   no_self_loops ms \<longleftrightarrow> (\<forall>k m. map_of ms k = Some m \<longrightarrow> name m \<notin> set (dependencies m))"
  by (auto simp: no_self_loops_def)

section \<open>The graph builder\<close>

lemma add_imports_queue: "fst (add_imports l q md) = q @ l"
  by (induction l arbitrary: q md) (auto simp: Let_def)

lemma add_imports_fields:
  "name (snd (add_imports l q md)) = name md"
  "packages (snd (add_imports l q md)) = packages md"
  "own_rss (snd (add_imports l q md)) = own_rss md"
  "total_rss (snd (add_imports l q md)) = total_rss md"
  by (induction l arbitrary: q md; simp add: Let_def)+

lemma add_imports_deps:
  "set (dependencies (snd (add_imports l q md))) =
     set (dependencies md) \<union> {d. \<exists>p' \<in> set l. d = module_name_of p' \<and> d \<noteq> name md}"
  by (induction l arbitrary: q md) (auto simp: Let_def)

lemma pop_at_set:
  "pop_at i q = Inr (pkg, q1) \<Longrightarrow> set q = insert pkg (set q1) \<and> length q1 < length q"
proof -
  assume a: "pop_at i q = Inr (pkg, q1)"
  then have i: "i < length q" and p: "pkg = q ! i" and q1: "q1 = take i q @ drop (Suc i) q"
    by (auto simp: pop_at_def split: if_splits)
  have "q = take i q @ q ! i # drop (Suc i) q" using i by (rule id_take_nth_drop)
  then have "set q = set (take i q @ q ! i # drop (Suc i) q)" by simp
  then have "set q = insert pkg (set q1)" by (simp add: p q1)
  moreover have "length q1 < length q" using i by (simp add: q1)
  ultimately show ?thesis by simp
qed

lemma pop_at_ok:
  "q \<noteq> [] \<Longrightarrow> pick_ok pick \<Longrightarrow> \<exists>pkg q1. pop_at (pick ms q) q = Inr (pkg, q1)"
  by (simp add: pop_at_def pick_ok_def)

lemma processed_iff:
  "p \<in> processed ms \<longleftrightarrow> (\<exists>k m. map_of ms k = Some m \<and> p \<in> set (packages m))"
  by (simp add: processed_def)

lemma process_pkg_old:
  assumes "pkg \<in> set (packages (cur_module ms (module_name_of pkg)))"
  shows "process_pkg t ms q1 pkg = Inr (ms, q1)"
  using assms
  by (auto simp: process_pkg_def cur_module_def Let_def Module_init_def split: option.splits)

lemma process_pkg_error:
  assumes "pkg \<notin> set (packages (cur_module ms (module_name_of pkg)))" "t pkg = Inl e"
  shows "process_pkg t ms q1 pkg = Inl e"
  using assms
  by (auto simp: process_pkg_def cur_module_def Let_def split: option.splits)

lemma process_pkg_new:
  assumes "pkg \<notin> set (packages (cur_module ms (module_name_of pkg)))" "t pkg = Inr l"
    and "distinct (map fst ms)"
  shows "\<exists>ms' md2. process_pkg t ms q1 pkg = Inr (ms', q1 @ l)
     \<and> distinct (map fst ms')
     \<and> map_of ms' = (map_of ms)(module_name_of pkg \<mapsto> md2)
     \<and> md2 = snd (add_imports l q1
          ((cur_module ms (module_name_of pkg))
             \<lparr>packages := set_add pkg (packages (cur_module ms (module_name_of pkg)))\<rparr>))"
proof (cases "map_of ms (module_name_of pkg)")
  case None
  then show ?thesis
    using assms
    by (simp add: process_pkg_def cur_module_def Let_def split_def update_conv' distinct_update
        add_imports_queue)
next
  case (Some m)
  then show ?thesis
    using assms
    by (simp add: process_pkg_def cur_module_def Let_def split_def update_conv' distinct_update
        add_imports_queue)
qed

lemma build_inv_D:
  assumes "build_inv t root ms q"
  shows "distinct (map fst ms)"
    and "\<And>k m. map_of ms k = Some m \<Longrightarrow>
           name m = k \<and> own_rss m = 0 \<and> total_rss m = 0 \<and> packages m \<noteq> []
           \<and> (\<forall>p \<in> set (packages m). module_name_of p = k)
           \<and> set (dependencies m) = dep_targets t k (set (packages m))"
    and "processed ms \<subseteq> traced t root"
    and "set q \<subseteq> traced t root"
    and "\<And>p. p \<in> processed ms \<Longrightarrow> \<exists>l. t p = Inr l \<and> set l \<subseteq> processed ms \<union> set q"
    and "root \<in> processed ms \<union> set q"
  using assms unfolding build_inv_def by blast+

lemma processed_cur:
  assumes "build_inv t root ms q"
  shows "pkg \<in> processed ms \<longleftrightarrow> pkg \<in> set (packages (cur_module ms (module_name_of pkg)))"
proof
  assume "pkg \<in> processed ms"
  then obtain k m where km: "map_of ms k = Some m" "pkg \<in> set (packages m)"
    by (auto simp: processed_iff)
  with build_inv_D(2)[OF assms km(1)] have "module_name_of pkg = k" by simp
  with km show "pkg \<in> set (packages (cur_module ms (module_name_of pkg)))"
    by (simp add: cur_module_def)
next
  assume a: "pkg \<in> set (packages (cur_module ms (module_name_of pkg)))"
  show "pkg \<in> processed ms"
  proof (cases "map_of ms (module_name_of pkg)")
    case None
    with a show ?thesis by (simp add: cur_module_def Module_init_def)
  next
    case (Some m)
    with a show ?thesis by (auto simp: cur_module_def processed_iff)
  qed
qed

lemma build_inv_old:
  assumes inv: "build_inv t root ms q" and sq: "set q = insert pkg (set q1)"
    and pr: "pkg \<in> processed ms"
  shows "build_inv t root ms q1"
  unfolding build_inv_def
proof (intro conjI)
  show "distinct (map fst ms)" using inv by (rule build_inv_D)
  show "\<forall>k m. map_of ms k = Some m \<longrightarrow>
           name m = k \<and> own_rss m = 0 \<and> total_rss m = 0 \<and> packages m \<noteq> []
           \<and> (\<forall>p \<in> set (packages m). module_name_of p = k)
           \<and> set (dependencies m) = dep_targets t k (set (packages m))"
    using build_inv_D(2)[OF inv] by blast
  show "processed ms \<subseteq> traced t root" using inv by (rule build_inv_D)
  show "set q1 \<subseteq> traced t root" using build_inv_D(4)[OF inv] sq by auto
  show "\<forall>p\<in>processed ms. \<exists>l. t p = Inr l \<and> set l \<subseteq> processed ms \<union> set q1"
  proof
    fix p assume "p \<in> processed ms"
    from build_inv_D(5)[OF inv this] obtain l where "t p = Inr l" "set l \<subseteq> processed ms \<union> set q"
      by blast
    with sq pr show "\<exists>l. t p = Inr l \<and> set l \<subseteq> processed ms \<union> set q1" by auto
  qed
  show "root \<in> processed ms \<union> set q1" using build_inv_D(6)[OF inv] sq pr by auto
qed

lemma dep_targets_insert:
  "t pkg = Inr l \<Longrightarrow>
   dep_targets t k (insert pkg P) =
     dep_targets t k P \<union> {d. \<exists>p' \<in> set l. d = module_name_of p' \<and> d \<noteq> k}"
  by (auto simp: dep_targets_def)

lemma cur_module_props:
  assumes inv: "build_inv t root ms q"
  shows "name (cur_module ms mn) = mn \<and> own_rss (cur_module ms mn) = 0 \<and>
      total_rss (cur_module ms mn) = 0 \<and>
      (\<forall>p \<in> set (packages (cur_module ms mn)). module_name_of p = mn) \<and>
      set (dependencies (cur_module ms mn)) = dep_targets t mn (set (packages (cur_module ms mn))) \<and>
      set (packages (cur_module ms mn)) \<subseteq> processed ms"
proof (cases "map_of ms mn")
  case None
  then show ?thesis
    by (simp add: cur_module_def Module_init_def dep_targets_def)
next
  case (Some m)
  have "set (packages m) \<subseteq> processed ms"
    unfolding processed_def using Some by blast
  with build_inv_D(2)[OF inv Some] Some show ?thesis
    by (simp add: cur_module_def)
qed

lemma build_inv_new:
  assumes inv: "build_inv t root ms q" and sq: "set q = insert pkg (set q1)"
    and np: "pkg \<notin> processed ms" and tl: "t pkg = Inr l"
    and d': "distinct (map fst ms')"
    and mo: "map_of ms' = (map_of ms)(module_name_of pkg \<mapsto> md2)"
    and md2: "md2 = snd (add_imports l q1
          ((cur_module ms (module_name_of pkg))
             \<lparr>packages := set_add pkg (packages (cur_module ms (module_name_of pkg)))\<rparr>))"
  shows "build_inv t root ms' (q1 @ l) \<and> processed ms' = insert pkg (processed ms)"
proof -
  define mn where "mn = module_name_of pkg"
  define md where "md = cur_module ms mn"
  note cp = cur_module_props[OF inv, of mn, folded md_def]
  have n2: "name md2 = mn" and o2: "own_rss md2 = 0" and t2: "total_rss md2 = 0"
    using cp by (simp_all add: md2 add_imports_fields mn_def[symmetric] md_def[symmetric])
  have p2: "set (packages md2) = insert pkg (set (packages md))"
    by (simp add: md2 add_imports_fields mn_def[symmetric] md_def[symmetric])
  have dd2: "set (dependencies md2) = dep_targets t mn (set (packages md2))"
    unfolding p2 dep_targets_insert[of t pkg l, OF tl]
    using cp by (auto simp: md2 add_imports_deps mn_def[symmetric] md_def[symmetric])
  have mo': "\<And>k. map_of ms' k = (if k = mn then Some md2 else map_of ms k)"
    by (simp add: mo mn_def)
  have mdsub: "set (packages md) \<subseteq> processed ms" using cp by simp
  have old_mn: "\<And>m. map_of ms mn = Some m \<Longrightarrow> m = md"
    by (simp add: md_def cur_module_def)
  have pr: "processed ms' = insert pkg (processed ms)"
  proof (intro set_eqI iffI)
    fix p assume "p \<in> processed ms'"
    then obtain k m where km: "map_of ms' k = Some m" "p \<in> set (packages m)"
      by (auto simp: processed_iff)
    show "p \<in> insert pkg (processed ms)"
    proof (cases "k = mn")
      case True
      with km mo' have "m = md2" by simp
      with km(2) p2 mdsub show ?thesis by auto
    next
      case False
      with km mo' have "map_of ms k = Some m" by simp
      with km(2) show ?thesis unfolding processed_def by blast
    qed
  next
    fix p assume a: "p \<in> insert pkg (processed ms)"
    show "p \<in> processed ms'"
    proof (cases "p = pkg")
      case True
      have "map_of ms' mn = Some md2" by (simp add: mo')
      moreover have "pkg \<in> set (packages md2)" by (simp add: p2)
      ultimately show ?thesis unfolding processed_def True by blast
    next
      case False
      with a obtain k m where km: "map_of ms k = Some m" "p \<in> set (packages m)"
        by (auto simp: processed_iff)
      show ?thesis
      proof (cases "k = mn")
        case True
        with km old_mn have "p \<in> set (packages md)" by auto
        then have "p \<in> set (packages md2)" by (simp add: p2)
        moreover have "map_of ms' mn = Some md2" by (simp add: mo')
        ultimately show ?thesis unfolding processed_def by blast
      next
        case False
        with km mo' have "map_of ms' k = Some m" by simp
        with km(2) show ?thesis unfolding processed_def by blast
      qed
    qed
  qed
  have pq: "pkg \<in> traced t root" using build_inv_D(4)[OF inv] sq by auto
  have lt: "set l \<subseteq> traced t root"
    using pq tl by (auto intro: traced.step)
  have inv': "build_inv t root ms' (q1 @ l)"
    unfolding build_inv_def
  proof (intro conjI)
    show "distinct (map fst ms')" by fact
    show "\<forall>k m. map_of ms' k = Some m \<longrightarrow>
           name m = k \<and> own_rss m = 0 \<and> total_rss m = 0 \<and> packages m \<noteq> []
           \<and> (\<forall>p \<in> set (packages m). module_name_of p = k)
           \<and> set (dependencies m) = dep_targets t k (set (packages m))"
    proof (intro allI impI)
      fix k m assume km: "map_of ms' k = Some m"
      show "name m = k \<and> own_rss m = 0 \<and> total_rss m = 0 \<and> packages m \<noteq> []
           \<and> (\<forall>p \<in> set (packages m). module_name_of p = k)
           \<and> set (dependencies m) = dep_targets t k (set (packages m))"
      proof (cases "k = mn")
        case True
        with km mo' have m: "m = md2" by simp
        have "packages md2 \<noteq> []" using p2 by auto
        moreover have "\<forall>p \<in> set (packages md2). module_name_of p = mn"
          using cp by (auto simp: p2 mn_def)
        ultimately show ?thesis using n2 o2 t2 dd2 True m by simp
      next
        case False
        with km mo' have "map_of ms k = Some m" by simp
        from build_inv_D(2)[OF inv this] show ?thesis .
      qed
    qed
    show "processed ms' \<subseteq> traced t root"
      using build_inv_D(3)[OF inv] pq by (auto simp: pr)
    show "set (q1 @ l) \<subseteq> traced t root"
      using build_inv_D(4)[OF inv] sq lt by auto
    show "\<forall>p\<in>processed ms'. \<exists>l'. t p = Inr l' \<and> set l' \<subseteq> processed ms' \<union> set (q1 @ l)"
    proof
      fix p assume "p \<in> processed ms'"
      then consider "p = pkg" | "p \<in> processed ms" by (auto simp: pr)
      then show "\<exists>l'. t p = Inr l' \<and> set l' \<subseteq> processed ms' \<union> set (q1 @ l)"
      proof cases
        case 1
        with tl show ?thesis by auto
      next
        case 2
        from build_inv_D(5)[OF inv this] obtain l0 where
          "t p = Inr l0" "set l0 \<subseteq> processed ms \<union> set q" by blast
        then show ?thesis using sq by (auto simp: pr)
      qed
    qed
    show "root \<in> processed ms' \<union> set (q1 @ l)"
      using build_inv_D(6)[OF inv] sq by (auto simp: pr)
  qed
  from inv' pr show ?thesis by simp
qed

lemma build_inv_init: "build_inv t root [] [root]"
  by (simp add: build_inv_def processed_def traced.root)

lemma build_step_old:
  assumes inv: "build_inv t root ms q" and pop: "pop_at i q = Inr (pkg, q1)"
    and pr: "pkg \<in> processed ms"
  shows "process_pkg t ms q1 pkg = Inr (ms, q1) \<and> build_inv t root ms q1"
proof -
  have "pkg \<in> set (packages (cur_module ms (module_name_of pkg)))"
    using processed_cur[OF inv] pr by simp
  then have "process_pkg t ms q1 pkg = Inr (ms, q1)" by (rule process_pkg_old)
  moreover have "build_inv t root ms q1"
    using inv pop_at_set[OF pop, THEN conjunct1] pr by (rule build_inv_old)
  ultimately show ?thesis by simp
qed

lemma build_step_new:
  assumes inv: "build_inv t root ms q" and pop: "pop_at i q = Inr (pkg, q1)"
    and np: "pkg \<notin> processed ms" and tl: "t pkg = Inr l"
  shows "\<exists>ms'. process_pkg t ms q1 pkg = Inr (ms', q1 @ l) \<and> build_inv t root ms' (q1 @ l)
     \<and> processed ms' = insert pkg (processed ms)"
proof -
  have nc: "pkg \<notin> set (packages (cur_module ms (module_name_of pkg)))"
    using processed_cur[OF inv] np by simp
  from process_pkg_new[where t = t and pkg = pkg and l = l and ms = ms and ?q1.0 = q1,
      OF nc tl build_inv_D(1)[OF inv]] obtain ms' md2 where
    r: "process_pkg t ms q1 pkg = Inr (ms', q1 @ l)"
    and d: "distinct (map fst ms')"
    and mo: "map_of ms' = (map_of ms)(module_name_of pkg \<mapsto> md2)"
    and md2: "md2 = snd (add_imports l q1
          ((cur_module ms (module_name_of pkg))
             \<lparr>packages := set_add pkg (packages (cur_module ms (module_name_of pkg)))\<rparr>))"
    by (elim exE conjE)
  from build_inv_new[OF inv pop_at_set[OF pop, THEN conjunct1] np tl d mo md2] r
  show ?thesis by blast
qed

lemma build_step_error:
  assumes inv: "build_inv t root ms q" and np: "pkg \<notin> processed ms" and tl: "t pkg = Inl e"
  shows "process_pkg t ms q1 pkg = Inl e"
proof -
  have "pkg \<notin> set (packages (cur_module ms (module_name_of pkg)))"
    using processed_cur[OF inv] np by simp
  then show ?thesis using tl by (rule process_pkg_error)
qed

lemma build_step_inv:
  assumes inv: "build_inv t root ms q" and pop: "pop_at i q = Inr (pkg, q1)"
    and r: "process_pkg t ms q1 pkg = Inr (ms', q')"
  shows "build_inv t root ms' q'"
proof (cases "pkg \<in> processed ms")
  case True
  from build_step_old[OF inv pop True] r show ?thesis by simp
next
  case False
  show ?thesis
  proof (cases "t pkg")
    case (Inl e)
    from build_step_error[OF inv False Inl, of q1] r show ?thesis by simp
  next
    case (Inr l)
    from build_step_new[OF inv pop False Inr] r show ?thesis by auto
  qed
qed

lemma build_loop_inv:
  assumes "build_loop pick t ms q = Some res"
  shows "\<forall>ms'. res = Inr ms' \<longrightarrow> build_inv t root ms q \<longrightarrow> build_inv t root ms' []"
proof (rule build_loop.raw_induct[where P = "\<lambda>pick t ms q res.
      \<forall>ms'. res = Inr ms' \<longrightarrow> build_inv t root ms q \<longrightarrow> build_inv t root ms' []",
      OF _ assms], goal_cases)
  case (1 f pick t ms q res)
  show ?case
  proof (intro allI impI)
    fix ms' assume res: "res = Inr ms'" and inv: "build_inv t root ms q"
    show "build_inv t root ms' []"
    proof (cases "q = []")
      case True
      with 1(2) res inv show ?thesis by simp
    next
      case False
      with 1(2) res obtain pkg q1 ms1 q' where
        pop: "pop_at (pick ms q) q = Inr (pkg, q1)"
        and pp: "process_pkg t ms q1 pkg = Inr (ms1, q')"
        and rec: "f pick t ms1 q' = Some res"
        by (auto split: sum.splits prod.splits)
      have "build_inv t root ms1 q'" using inv pop pp by (rule build_step_inv)
      with 1(1)[OF rec] res show ?thesis by simp
    qed
  qed
qed

lemma build_inv_final:
  assumes inv: "build_inv t root ms []"
  shows "processed ms = traced t root"
proof
  show "processed ms \<subseteq> traced t root" using inv by (rule build_inv_D)
  show "traced t root \<subseteq> processed ms"
  proof
    fix p assume "p \<in> traced t root"
    then show "p \<in> processed ms"
    proof (induction rule: traced.induct)
      case root
      then show ?case using build_inv_D(6)[OF inv] by simp
    next
      case (step p l p')
      from build_inv_D(5)[OF inv step.IH] step.hyps(2,3) show ?case by auto
    qed
  qed
qed

lemma finite_processed: "finite (processed ms)"
proof -
  have "processed ms \<subseteq> (\<Union>p \<in> set ms. set (packages (snd p)))"
    by (force simp: processed_def dest!: map_of_SomeD)
  then show ?thesis by (rule finite_subset) simp
qed

lemma build_final_keys:
  assumes inv: "build_inv t root ms []"
  shows "keys ms = module_name_of ` traced t root"
proof (intro set_eqI iffI)
  fix k assume "k \<in> keys ms"
  then obtain m where m: "map_of ms k = Some m" using keys_map_of by blast
  from build_inv_D(2)[OF inv m] obtain p where p: "p \<in> set (packages m)" "module_name_of p = k"
    by (cases "packages m") auto
  have "p \<in> processed ms" unfolding processed_def using m p(1) by blast
  then show "k \<in> module_name_of ` traced t root"
    using p(2) build_inv_final[OF inv] by auto
next
  fix k assume "k \<in> module_name_of ` traced t root"
  then obtain p where p: "p \<in> processed ms" "k = module_name_of p"
    using build_inv_final[OF inv] by auto
  then obtain k' m where m: "map_of ms k' = Some m" "p \<in> set (packages m)"
    by (auto simp: processed_iff)
  with build_inv_D(2)[OF inv m(1)] p(2) have "k' = k" by simp
  with m(1) show "k \<in> keys ms" by (auto dest: map_of_keys)
qed

lemma build_final_pkgs:
  assumes inv: "build_inv t root ms []"
  shows "pkgs_of ms k = {p \<in> traced t root. module_name_of p = k}"
proof (intro set_eqI iffI)
  fix p assume "p \<in> pkgs_of ms k"
  then obtain m where m: "map_of ms k = Some m" "p \<in> set (packages m)"
    by (auto simp: pkgs_of_def split: option.splits)
  have "p \<in> processed ms" unfolding processed_def using m by blast
  with build_inv_D(2)[OF inv m(1)] m(2) build_inv_final[OF inv]
  show "p \<in> {p \<in> traced t root. module_name_of p = k}" by auto
next
  fix p assume "p \<in> {p \<in> traced t root. module_name_of p = k}"
  then have p: "p \<in> processed ms" "module_name_of p = k"
    using build_inv_final[OF inv] by auto
  then obtain k' m where m: "map_of ms k' = Some m" "p \<in> set (packages m)"
    by (auto simp: processed_iff)
  with build_inv_D(2)[OF inv m(1)] p(2) have "k' = k" by auto
  with m show "p \<in> pkgs_of ms k" by (simp add: pkgs_of_def)
qed

lemma dep_targets_empty [simp]: "dep_targets t k {} = {}"
  by (simp add: dep_targets_def)

lemma build_final_deps:
  assumes inv: "build_inv t root ms q"
  shows "deps_of ms k = dep_targets t k (pkgs_of ms k)"
proof (cases "map_of ms k")
  case None
  then show ?thesis by (simp add: deps_of_def pkgs_of_def)
next
  case (Some m)
  with build_inv_D(2)[OF inv Some] show ?thesis by (simp add: deps_of_def pkgs_of_def)
qed

lemma build_final_name:
  assumes inv: "build_inv t root ms q"
  shows "map_option name (map_of ms k) = (if k \<in> keys ms then Some k else None)"
proof (cases "map_of ms k")
  case None
  then have "k \<notin> keys ms" by (simp add: keys_dom domIff)
  with None show ?thesis by simp
next
  case (Some m)
  with build_inv_D(2)[OF inv Some] map_of_keys[OF Some] show ?thesis by simp
qed

lemma build_final_same_graph:
  assumes "build_inv t root ms1 []" "build_inv t root ms2 []"
  shows "same_graph ms1 ms2"
  unfolding same_graph_def
  using build_final_keys[OF assms(1)] build_final_keys[OF assms(2)]
    build_final_pkgs[OF assms(1)] build_final_pkgs[OF assms(2)]
    build_final_deps[OF assms(1)] build_final_deps[OF assms(2)]
    build_final_name[OF assms(1)] build_final_name[OF assms(2)]
  by simp

lemma build_final_reg_inv:
  assumes inv: "build_inv t root ms []"
  shows "reg_inv ms"
proof -
  have d: "distinct (map fst ms)" using inv by (rule build_inv_D)
  have wf: "wf_registry ms"
    unfolding wf_registry_alt using d build_inv_D(2)[OF inv] by blast
  have ns: "no_self_loops ms"
    unfolding no_self_loops_alt[OF d]
  proof (intro allI impI)
    fix k m assume "map_of ms k = Some m"
    from build_inv_D(2)[OF inv this] show "name m \<notin> set (dependencies m)"
      by (auto simp: dep_targets_def)
  qed
  have nd: "no_dangling ms"
    unfolding no_dangling_alt[OF d]
  proof (intro allI impI subsetI)
    fix k m x assume m: "map_of ms k = Some m" and x: "x \<in> set (dependencies m)"
    from build_inv_D(2)[OF inv m] x have "x \<in> dep_targets t k (set (packages m))" by simp
    then obtain p l p' where p: "p \<in> set (packages m)" "t p = Inr l" "p' \<in> set l"
      "x = module_name_of p'"
      by (auto simp: dep_targets_def)
    have "p \<in> processed ms" unfolding processed_def using m p(1) by blast
    then have "p \<in> traced t root" using build_inv_final[OF inv] by simp
    then have "p' \<in> traced t root" using p(2,3) by (rule traced.step)
    then show "x \<in> keys ms" using p(4) build_final_keys[OF inv] by simp
  qed
  from wf nd ns show ?thesis by (simp add: reg_inv_def)
qed

lemma build_loop_terminates:
  assumes fin: "finite (traced t root)" and succ: "\<forall>p \<in> traced t root. \<exists>l. t p = Inr l"
    and pk: "pick_ok pick"
  shows "build_inv t root ms q \<Longrightarrow>
    \<exists>ms'. build_loop pick t ms q = Some (Inr ms') \<and> build_inv t root ms' []"
proof -
  have wfl: "wf (less_than <*lex*> less_than)" by (intro wf_lex_prod wf_less_than)
  show "build_inv t root ms q \<Longrightarrow>
    \<exists>ms'. build_loop pick t ms q = Some (Inr ms') \<and> build_inv t root ms' []"
    using wfl
proof (induction "(card (traced t root - processed ms), length q)" arbitrary: ms q
    rule: wf_induct_rule)
  case less
  note inv = less.prems
  show ?case
  proof (cases "q = []")
    case True
    then have "build_loop pick t ms q = Some (Inr ms)"
      by (subst build_loop.simps) simp
    with inv True show ?thesis by simp
  next
    case False
    from pop_at_ok[OF False pk, of ms] obtain pkg q1 where
      pop: "pop_at (pick ms q) q = Inr (pkg, q1)"
      by blast
    have sq: "set q = insert pkg (set q1)" and lq: "length q1 < length q"
      using pop_at_set[OF pop] by simp_all
    have pt: "pkg \<in> traced t root" using build_inv_D(4)[OF inv] sq by auto
    show ?thesis
    proof (cases "pkg \<in> processed ms")
      case True
      from build_step_old[OF inv pop True]
      have pp: "process_pkg t ms q1 pkg = Inr (ms, q1)" and inv1: "build_inv t root ms q1"
        by simp_all
      have "((card (traced t root - processed ms), length q1),
             (card (traced t root - processed ms), length q)) \<in> less_than <*lex*> less_than"
        using lq by simp
      from less.hyps[OF this inv1] obtain ms' where
        r: "build_loop pick t ms q1 = Some (Inr ms')" and i: "build_inv t root ms' []"
        by (elim exE conjE)
      have "build_loop pick t ms q = Some (Inr ms')"
        using False pop pp r by (subst build_loop.simps) simp
      with i show ?thesis by simp
    next
      case np: False
      from succ pt obtain l where tl: "t pkg = Inr l" by blast
      from build_step_new[OF inv pop np tl] obtain ms1 where
        pp: "process_pkg t ms q1 pkg = Inr (ms1, q1 @ l)"
        and inv1: "build_inv t root ms1 (q1 @ l)"
        and pr: "processed ms1 = insert pkg (processed ms)"
        by (elim exE conjE)
      have "traced t root - processed ms1 \<subset> traced t root - processed ms"
        using pt np by (auto simp: pr)
      then have "card (traced t root - processed ms1) < card (traced t root - processed ms)"
        using fin by (intro psubset_card_mono) simp_all
      then have "((card (traced t root - processed ms1), length (q1 @ l)),
             (card (traced t root - processed ms), length q)) \<in> less_than <*lex*> less_than"
        by simp
      from less.hyps[OF this inv1] obtain ms' where
        r: "build_loop pick t ms1 (q1 @ l) = Some (Inr ms')" and i: "build_inv t root ms' []"
        by (elim exE conjE)
      have "build_loop pick t ms q = Some (Inr ms')"
        using False pop pp r by (subst build_loop.simps) simp
      with i show ?thesis by simp
    qed
  qed
qed
qed

section \<open>One collapse\<close>

lemma merge_loop_char:
  assumes "distinct (map fst ms)" "map_of ms (name nm) = Some nm" "name nm \<notin> set loop"
    "set loop \<subseteq> keys ms" "distinct loop"
  shows "\<exists>ms2 nm2. merge_loop ms nm loop = Inr (ms2, nm2)
     \<and> distinct (map fst ms2)
     \<and> (\<forall>k. map_of ms2 k =
           (if k \<in> set loop then None else if k = name nm then Some nm2 else map_of ms k))
     \<and> name nm2 = name nm \<and> own_rss nm2 = own_rss nm \<and> total_rss nm2 = total_rss nm
     \<and> set (dependencies nm2) = set (dependencies nm) \<union> (\<Union>x\<in>set loop. deps_of ms x)
     \<and> set (packages nm2) = set (packages nm) \<union> (\<Union>x\<in>set loop. pkgs_of ms x)"
  using assms
proof (induction loop arbitrary: ms nm)
  case Nil
  then show ?case by auto
next
  case (Cons x rest)
  have "x \<in> keys ms" using Cons.prems(4) by simp
  then obtain m where m: "map_of ms x = Some m"
    using keys_map_of by blast
  define nm' where "nm' = nm\<lparr>packages := set_update (packages nm) (packages m),
                  dependencies := set_update (dependencies nm) (dependencies m)\<rparr>"
  define ms' where "ms' = AList.delete x (store ms nm')"
  have nmk: "name nm \<in> keys ms" using Cons.prems(2) by (rule map_of_keys)
  have st: "store ms nm' = AList.update (name nm) nm' ms"
    using nmk by (simp add: store_def nm'_def)
  have xne: "x \<noteq> name nm" using Cons.prems(3) by auto
  have mo: "map_of ms' = ((map_of ms)(name nm \<mapsto> nm'))(x := None)"
    by (simp add: ms'_def st delete_conv' update_conv')
  have 1: "distinct (map fst ms')"
    by (simp add: ms'_def st distinct_delete distinct_update Cons.prems(1))
  have 2: "map_of ms' (name nm') = Some nm'" using xne by (simp add: mo nm'_def)
  have 3: "name nm' \<notin> set rest" using Cons.prems(3) by (simp add: nm'_def)
  have 4: "set rest \<subseteq> keys ms'" using Cons.prems(4,5) by (auto simp: ms'_def st)
  have 5: "distinct rest" using Cons.prems(5) by simp
  from Cons.IH[OF 1 2 3 4 5] obtain ms2 nm2 where
    r: "merge_loop ms' nm' rest = Inr (ms2, nm2)" and d: "distinct (map fst ms2)"
    and mo2: "\<forall>k. map_of ms2 k =
           (if k \<in> set rest then None else if k = name nm' then Some nm2 else map_of ms' k)"
    and f: "name nm2 = name nm'" "own_rss nm2 = own_rss nm'" "total_rss nm2 = total_rss nm'"
    and dd: "set (dependencies nm2) = set (dependencies nm') \<union> (\<Union>x\<in>set rest. deps_of ms' x)"
    and pp: "set (packages nm2) = set (packages nm') \<union> (\<Union>x\<in>set rest. pkgs_of ms' x)"
    by (elim exE conjE)
  have same: "\<And>y. y \<in> set rest \<Longrightarrow> map_of ms' y = map_of ms y"
    using Cons.prems(3,5) by (auto simp: mo)
  have "merge_loop ms nm (x # rest) = Inr (ms2, nm2)"
    using m r by (simp add: ms'_def nm'_def Let_def)
  moreover have "\<forall>k. map_of ms2 k =
           (if k \<in> set (x # rest) then None else if k = name nm then Some nm2 else map_of ms k)"
  proof
    fix k
    have n': "name nm' = name nm" by (simp add: nm'_def)
    show "map_of ms2 k =
           (if k \<in> set (x # rest) then None else if k = name nm then Some nm2 else map_of ms k)"
      using mo2[rule_format, of k] xne unfolding n' mo by simp
  qed
  moreover have "set (dependencies nm2) = set (dependencies nm) \<union> (\<Union>x\<in>set (x # rest). deps_of ms x)"
  proof -
    have e1: "(\<Union>y\<in>set rest. deps_of ms' y) = (\<Union>y\<in>set rest. deps_of ms y)"
      using same by (simp add: deps_of_def)
    have e2: "deps_of ms x = set (dependencies m)" using m by (simp add: deps_of_def)
    have e3: "set (dependencies nm') = set (dependencies nm) \<union> set (dependencies m)"
      by (simp add: nm'_def)
    show ?thesis unfolding dd e1 e2 e3 by (simp add: e2 Un_assoc)
  qed
  moreover have "set (packages nm2) = set (packages nm) \<union> (\<Union>x\<in>set (x # rest). pkgs_of ms x)"
  proof -
    have e1: "(\<Union>y\<in>set rest. pkgs_of ms' y) = (\<Union>y\<in>set rest. pkgs_of ms y)"
      using same by (simp add: pkgs_of_def)
    have e2: "pkgs_of ms x = set (packages m)" using m by (simp add: pkgs_of_def)
    have e3: "set (packages nm') = set (packages nm) \<union> set (packages m)"
      by (simp add: nm'_def)
    show ?thesis unfolding pp e1 e2 e3 by (simp add: e2 Un_assoc)
  qed
  moreover have "name nm2 = name nm" "own_rss nm2 = own_rss nm" "total_rss nm2 = total_rss nm"
    using f by (simp_all add: nm'_def)
  ultimately show ?case using d
    by (intro exI[of _ ms2] exI[of _ nm2] conjI) assumption+
qed

lemma rename_loop_char:
  "new \<notin> set loop \<Longrightarrow>
   rename_loop ms new start loop =
     (map (\<lambda>(k, m). (k, rename_all new loop m)) ms, if start \<in> set loop then new else start)"
proof (induction loop arbitrary: ms start)
  case Nil
  then show ?case by (simp add: rename_all_def)
next
  case (Cons x rest)
  then show ?case
    by (auto simp: rename_all_def rename_dependency_def split_def comp_def)
qed

lemma rename_in_fields [simp]:
  "name (rename_in x n m) = name m" "packages (rename_in x n m) = packages m"
  "own_rss (rename_in x n m) = own_rss m" "total_rss (rename_in x n m) = total_rss m"
  by (auto simp: rename_in_def split: option.splits)

lemma rename_all_fields [simp]:
  "name (rename_all new loop m) = name m" "packages (rename_all new loop m) = packages m"
  "own_rss (rename_all new loop m) = own_rss m" "total_rss (rename_all new loop m) = total_rss m"
  unfolding rename_all_def by (induction loop arbitrary: m) auto

lemma set_deps_rename_in:
  "set (dependencies (rename_in x (Some new) m)) =
     (if x \<in> set (dependencies m) then insert new (set (dependencies m) - {x})
      else set (dependencies m))"
  by (auto simp: rename_in_def)

lemma set_deps_rename_all:
  "new \<notin> set loop \<Longrightarrow>
   set (dependencies (rename_all new loop m)) =
     (if set (dependencies m) \<inter> set loop = {} then set (dependencies m)
      else insert new (set (dependencies m) - set loop))"
proof (induction loop arbitrary: m)
  case Nil
  then show ?case by (simp add: rename_all_def)
next
  case (Cons x rest)
  have "rename_all new (x # rest) m = rename_all new rest (rename_in x (Some new) m)"
    by (simp add: rename_all_def)
  moreover have "new \<notin> set rest" "new \<noteq> x" using Cons.prems by auto
  ultimately show ?case
    using Cons.IH[of "rename_in x (Some new) m"]
    by (simp add: set_deps_rename_in) (auto split: if_splits)
qed

lemma fst_comp_map_snd [simp]: "fst \<circ> (\<lambda>(k, m). (k, f m)) = fst"
  by auto

lemma collapse_step_char:
  assumes wf: "distinct (map fst ms)"
    and loop: "distinct loop" "set loop \<subseteq> keys ms"
    and new: "join [CHR 0x0A] loop \<notin> set loop"
    and cyc: "(\<Union>x\<in>set loop. deps_of ms x) \<inter> set loop \<noteq> {}"
  shows "\<exists>ms' D P. collapse_step ms start loop
        = Inr (ms', if start \<in> set loop then join [CHR 0x0A] loop else start)
     \<and> distinct (map fst ms')
     \<and> set D = (\<Union>x\<in>set loop. deps_of ms x) - set loop - {join [CHR 0x0A] loop}
     \<and> set P = (\<Union>x\<in>set loop. pkgs_of ms x)
     \<and> (\<forall>k. map_of ms' k =
           (if k \<in> set loop then None
            else if k = join [CHR 0x0A] loop
            then Some \<lparr>name = join [CHR 0x0A] loop, packages = P, dependencies = D,
                        own_rss = 0, total_rss = 0\<rparr>
            else map_option (rename_all (join [CHR 0x0A] loop) loop) (map_of ms k)))"
proof -
  define new where "new = join [CHR 0x0A] loop"
  define nm0 where "nm0 = Module_init new"
  define ms1 where "ms1 = AList.update new nm0 ms"
  have n0: "name nm0 = new" by (simp add: nm0_def Module_init_def)
  have nl: "new \<notin> set loop" using new by (simp add: new_def)
  have 1: "distinct (map fst ms1)" by (simp add: ms1_def distinct_update wf)
  have 2: "map_of ms1 (name nm0) = Some nm0" by (simp add: ms1_def n0 update_conv')
  have 3: "name nm0 \<notin> set loop" using nl n0 by simp
  have 4: "set loop \<subseteq> keys ms1" using loop(2) by (auto simp: ms1_def)
  from merge_loop_char[OF 1 2 3 4 loop(1)] obtain ms2 nm2 where
    r: "merge_loop ms1 nm0 loop = Inr (ms2, nm2)" and d2: "distinct (map fst ms2)"
    and mo2: "\<forall>k. map_of ms2 k =
           (if k \<in> set loop then None else if k = name nm0 then Some nm2 else map_of ms1 k)"
    and f: "name nm2 = name nm0" "own_rss nm2 = own_rss nm0" "total_rss nm2 = total_rss nm0"
    and dd: "set (dependencies nm2) = set (dependencies nm0) \<union> (\<Union>x\<in>set loop. deps_of ms1 x)"
    and pp: "set (packages nm2) = set (packages nm0) \<union> (\<Union>x\<in>set loop. pkgs_of ms1 x)"
    by (elim exE conjE)
  have same: "\<And>x. x \<in> set loop \<Longrightarrow> map_of ms1 x = map_of ms x"
    using nl by (auto simp: ms1_def update_conv')
  have dd': "set (dependencies nm2) = (\<Union>x\<in>set loop. deps_of ms x)"
    using same by (simp add: dd nm0_def Module_init_def deps_of_def)
  have pp': "set (packages nm2) = (\<Union>x\<in>set loop. pkgs_of ms x)"
    using same by (simp add: pp nm0_def Module_init_def pkgs_of_def)
  define ms3 where "ms3 = map (\<lambda>(k, m). (k, rename_all new loop m)) ms2"
  define start' where "start' = (if start \<in> set loop then new else start)"
  have rl: "rename_loop ms2 new start loop = (ms3, start')"
    using rename_loop_char[OF nl] by (simp add: ms3_def start'_def)
  have mo3: "\<And>k. map_of ms3 k = map_option (rename_all new loop) (map_of ms2 k)"
    by (simp add: ms3_def map_of_map_snd)
  have m3new: "map_of ms3 new = Some (rename_all new loop nm2)"
    using nl by (simp add: mo3 mo2 n0)
  define nm3 where "nm3 = rename_all new loop nm2"
  have d3: "set (dependencies nm3) = insert new ((\<Union>x\<in>set loop. deps_of ms x) - set loop)"
    using cyc by (simp add: nm3_def set_deps_rename_all[OF nl] dd')
  define D where "D = removeAll new (dependencies nm3)"
  have sr: "set_remove new (dependencies nm3) = Inr D"
    using d3 by (simp add: set_remove_def D_def)
  have k3: "new \<in> keys ms3" using m3new by (rule map_of_keys)
  define ms' where "ms' = AList.update new (nm3\<lparr>dependencies := D\<rparr>) ms3"
  have st: "store ms3 (nm3\<lparr>dependencies := D\<rparr>) = ms'"
    using k3 by (simp add: store_def ms'_def nm3_def f n0)
  have res: "collapse_step ms start loop = Inr (ms', start')"
    unfolding collapse_step_def Let_def
    using r rl m3new sr st
    by (simp add: new_def[symmetric] nm0_def[symmetric] ms1_def[symmetric] nm3_def[symmetric])
  have rec: "nm3\<lparr>dependencies := D\<rparr> =
      \<lparr>name = new, packages = packages nm2, dependencies = D, own_rss = 0, total_rss = 0\<rparr>"
    using f by (simp add: nm3_def n0 nm0_def Module_init_def)
  have dist: "distinct (map fst ms')"
    unfolding ms'_def by (rule distinct_update) (simp add: ms3_def d2)
  have setD: "set D = (\<Union>x\<in>set loop. deps_of ms x) - set loop - {new}"
    using d3 by (auto simp: D_def)
  have mo': "\<forall>k. map_of ms' k =
           (if k \<in> set loop then None
            else if k = new
            then Some \<lparr>name = new, packages = packages nm2, dependencies = D,
                        own_rss = 0, total_rss = 0\<rparr>
            else map_option (rename_all new loop) (map_of ms k))"
    using nl by (auto simp: ms'_def update_conv' rec mo3 mo2 n0 ms1_def)
  show ?thesis
    using res dist setD pp' mo' unfolding new_def start'_def by blast
qed

lemma length_join:
  "length (join sep xs) = sum_list (map length xs) + (length xs - 1) * length sep"
  by (induction sep xs rule: join.induct) auto

lemma join_not_member:
  assumes "2 \<le> length xs" "sep \<noteq> []"
  shows "join sep xs \<notin> set xs"
proof
  assume "join sep xs \<in> set xs"
  then have "length (join sep xs) \<le> sum_list (map length xs)"
    by (simp add: member_le_sum_list)
  moreover have "0 < (length xs - 1) * length sep" using assms by simp
  ultimately show False by (simp add: length_join)
qed

lemma good_loop_length:
  assumes "wf_registry ms" "no_self_loops ms" "good_loop ms loop"
  shows "2 \<le> length loop"
proof (rule ccontr)
  assume "\<not> 2 \<le> length loop"
  moreover have "loop \<noteq> []" using assms(3) by (simp add: good_loop_def)
  ultimately obtain x where x: "loop = [x]"
    by (cases loop) (auto simp: not_le Suc_le_eq)
  then have "(x, x) \<in> edges ms" using assms(3) by (simp add: good_loop_def)
  then obtain m where m: "map_of ms x = Some m" "x \<in> set (dependencies m)"
    by (auto simp: edges_iff)
  moreover have "name m = x" using assms(1) m(1) by (rule wf_name)
  ultimately show False
    using assms(1,2) by (auto simp: no_self_loops_alt wf_registry_def)
qed

lemma good_loop_cyc:
  assumes "good_loop ms loop"
  shows "(\<Union>x\<in>set loop. deps_of ms x) \<inter> set loop \<noteq> {}"
proof -
  from assms have ne: "loop \<noteq> []" and e: "(last loop, hd loop) \<in> edges ms"
    by (simp_all add: good_loop_def)
  have "hd loop \<in> deps_of ms (last loop)"
    using e by (auto simp: edges_iff deps_of_def)
  moreover have "last loop \<in> set loop" "hd loop \<in> set loop" using ne by simp_all
  ultimately show ?thesis by blast
qed

lemma collapse_step_inv:
  assumes inv: "reg_inv ms" and gl: "good_loop ms loop" and st: "start \<in> keys ms"
  shows "\<exists>ms' start'. collapse_step ms start loop = Inr (ms', start')
     \<and> reg_inv ms' \<and> length ms' < length ms \<and> start' \<in> keys ms'"
proof -
  define new where "new = join [CHR 0x0A] loop"
  from inv have wf: "wf_registry ms" and nd: "no_dangling ms" and ns: "no_self_loops ms"
    by (simp_all add: reg_inv_def)
  have dist: "distinct (map fst ms)" using wf by (simp add: wf_registry_def)
  from gl have dl: "distinct loop" and sub: "set loop \<subseteq> keys ms"
    by (simp_all add: good_loop_def)
  have len: "2 \<le> length loop" using wf ns gl by (rule good_loop_length)
  have nl: "new \<notin> set loop" unfolding new_def using len by (intro join_not_member) simp_all
  have "\<exists>ms' D P. collapse_step ms start loop
        = Inr (ms', if start \<in> set loop then new else start)
     \<and> distinct (map fst ms')
     \<and> set D = (\<Union>x\<in>set loop. deps_of ms x) - set loop - {new}
     \<and> set P = (\<Union>x\<in>set loop. pkgs_of ms x)
     \<and> (\<forall>k. map_of ms' k =
           (if k \<in> set loop then None
            else if k = new
            then Some \<lparr>name = new, packages = P, dependencies = D,
                        own_rss = 0, total_rss = 0\<rparr>
            else map_option (rename_all new loop) (map_of ms k)))"
    unfolding new_def
    by (rule collapse_step_char[OF dist dl sub nl[unfolded new_def] good_loop_cyc[OF gl]])
  then obtain ms' D P where
    res: "collapse_step ms start loop = Inr (ms', if start \<in> set loop then new else start)"
    and d': "distinct (map fst ms')"
    and D: "set D = (\<Union>x\<in>set loop. deps_of ms x) - set loop - {new}"
    and mo: "\<forall>k. map_of ms' k =
           (if k \<in> set loop then None
            else if k = new
            then Some \<lparr>name = new, packages = P, dependencies = D, own_rss = 0, total_rss = 0\<rparr>
            else map_option (rename_all new loop) (map_of ms k))"
    by (elim exE conjE)
  have mo_new: "map_of ms' new =
      Some \<lparr>name = new, packages = P, dependencies = D, own_rss = 0, total_rss = 0\<rparr>"
    using mo nl by simp
  have mo_loop: "\<And>k. k \<in> set loop \<Longrightarrow> map_of ms' k = None"
    using mo by simp
  have mo_other: "\<And>k. k \<notin> set loop \<Longrightarrow> k \<noteq> new \<Longrightarrow>
      map_of ms' k = map_option (rename_all new loop) (map_of ms k)"
    using mo by simp
  have other: "\<exists>m0. map_of ms k = Some m0 \<and> m = rename_all new loop m0" "k \<notin> set loop"
    if "map_of ms' k = Some m" "k \<noteq> new" for k m
  proof -
    show nk: "k \<notin> set loop" using that(1) mo_loop[of k] by auto
    from mo_other[OF nk that(2)] that(1)
    have "map_option (rename_all new loop) (map_of ms k) = Some m" by simp
    then show "\<exists>m0. map_of ms k = Some m0 \<and> m = rename_all new loop m0"
      by (cases "map_of ms k") auto
  qed
  have keys': "keys ms' = insert new (keys ms - set loop)"
  proof (intro set_eqI iffI)
    fix k assume "k \<in> keys ms'"
    then obtain m where "map_of ms' k = Some m" using keys_map_of by blast
    then show "k \<in> insert new (keys ms - set loop)"
      using other[of k m] by (cases "k = new") (auto simp: keys_dom)
  next
    fix k assume "k \<in> insert new (keys ms - set loop)"
    then show "k \<in> keys ms'"
      using mo_new mo_other[of k] by (cases "k = new") (auto simp: keys_dom)
  qed
  have depsub: "\<And>x. deps_of ms x \<subseteq> keys ms"
    using nd dist by (auto simp: deps_of_def no_dangling_alt split: option.splits)
  have wf': "wf_registry ms'"
    unfolding wf_registry_alt
  proof (intro conjI allI impI)
    show "distinct (map fst ms')" by fact
  next
    fix k m assume km: "map_of ms' k = Some m"
    show "name m = k"
    proof (cases "k = new")
      case True
      with km mo_new show ?thesis by auto
    next
      case False
      from other(1)[OF km False] obtain m0 where "map_of ms k = Some m0" "m = rename_all new loop m0"
        by auto
      with wf_name[OF wf] show ?thesis by auto
    qed
  qed
  have nd': "no_dangling ms'"
    unfolding no_dangling_alt[OF d']
  proof (intro allI impI)
    fix k m assume km: "map_of ms' k = Some m"
    show "set (dependencies m) \<subseteq> keys ms'"
    proof (cases "k = new")
      case True
      with km mo_new have "dependencies m = D" by auto
      with D depsub show ?thesis unfolding keys' by blast
    next
      case False
      from other(1)[OF km False] obtain m0 where m0: "map_of ms k = Some m0" "m = rename_all new loop m0"
        by auto
      have "set (dependencies m0) \<subseteq> keys ms"
        using m0(1) nd dist by (auto simp: no_dangling_alt)
      then show ?thesis
        by (auto simp: m0(2) set_deps_rename_all[OF nl] keys' split: if_splits)
    qed
  qed
  have ns': "no_self_loops ms'"
    unfolding no_self_loops_alt[OF d']
  proof (intro allI impI)
    fix k m assume km: "map_of ms' k = Some m"
    show "name m \<notin> set (dependencies m)"
    proof (cases "k = new")
      case True
      with km mo_new have "dependencies m = D" "name m = new" by auto
      with D show ?thesis by auto
    next
      case False
      from other(1)[OF km False] obtain m0 where m0: "map_of ms k = Some m0" "m = rename_all new loop m0"
        by auto
      have "name m0 \<notin> set (dependencies m0)"
        using m0(1) ns dist by (auto simp: no_self_loops_alt)
      moreover have "name m0 = k" using wf m0(1) by (rule wf_name)
      ultimately show ?thesis
        using False by (auto simp: m0(2) set_deps_rename_all[OF nl] split: if_splits)
    qed
  qed
  have fin: "finite (keys ms)" by (simp add: keys_def)
  have cl: "card (set loop) = length loop" using dl by (rule distinct_card)
  have ck: "card (keys ms) = length ms"
    using dist distinct_card[of "map fst ms"] by (simp add: keys_def)
  have ck': "card (keys ms') = length ms'"
    using d' distinct_card[of "map fst ms'"] by (simp add: keys_def)
  have "card (keys ms - set loop) = card (keys ms) - card (set loop)"
    using sub by (intro card_Diff_subset) simp_all
  moreover have "card (set loop) \<le> card (keys ms)" using sub fin by (rule card_mono[rotated])
  moreover have "card (keys ms') \<le> Suc (card (keys ms - set loop))"
    unfolding keys' using fin by (simp add: card_insert_le_m1 card_insert_if)
  ultimately have lt: "length ms' < length ms"
    using cl ck ck' len by linarith
  have "(if start \<in> set loop then new else start) \<in> keys ms'"
    using st by (auto simp: keys')
  with res wf' nd' ns' lt show ?thesis by (auto simp: reg_inv_def)
qed

section \<open>The collapse loop\<close>

lemma detect_loop_root_key:
  "detect_loop room ord ms s [] = Inr r \<Longrightarrow> s \<in> keys ms"
  by (auto simp: detect_loop.simps split: option.splits if_splits dest: map_of_keys)

lemma detect_None_cycle_free:
  assumes "iter_ok ord" "detect_loop room ord ms s [] = Inr None"
  shows "cycle_free_from ms s"
  using detect_complete(1)[OF assms] by (simp add: cycle_free_from_def reachable_def)

lemma detect_Some_good:
  assumes "iter_ok ord" "detect_loop room ord ms s [] = Inr (Some loop)"
  shows "good_loop ms loop"
  by (rule detect_sound(1)[OF assms(1) _ _ _ _ assms(2)]) simp_all

lemma collapse_iter_Some:
  assumes ok: "iter_ok ord" and inv: "reg_inv ms"
    and it: "collapse_iter room ord ms r = Inr (Some (ms', r'))"
  shows "reg_inv ms' \<and> length ms' < length ms \<and> r' \<in> keys ms' \<and> r \<in> keys ms"
proof -
  from it obtain loop where d: "detect_loop room ord ms r [] = Inr (Some loop)"
    and c: "collapse_step ms r loop = Inr (ms', r')"
    by (auto simp: collapse_iter_def split: sum.splits option.splits)
  have k: "r \<in> keys ms" using d by (rule detect_loop_root_key)
  have g: "good_loop ms loop" using ok d by (rule detect_Some_good)
  from collapse_step_inv[OF inv g k] c k show ?thesis by auto
qed

lemma card_keys_le: "card (keys ms) \<le> length ms"
  unfolding keys_def by (metis card_image_le card_length le_trans List.finite_set)

lemma collapse_iter_total:
  assumes ok: "iter_ok ord" and inv: "reg_inv ms" and k: "r \<in> keys ms"
    and room: "length ms < room"
  shows "\<exists>x. collapse_iter room ord ms r = Inr x"
proof -
  have nd: "no_dangling ms" using inv by (simp add: reg_inv_def)
  have c: "card (keys ms - set []) < room"
    using card_keys_le[of ms] room by simp
  from detect_no_error(1)[OF ok nd k c] obtain x where
    d: "detect_loop room ord ms r [] = Inr x" by blast
  show ?thesis
  proof (cases x)
    case None
    with d show ?thesis by (simp add: collapse_iter_def)
  next
    case (Some loop)
    have g: "good_loop ms loop" using ok d Some by (auto intro: detect_Some_good)
    from collapse_step_inv[OF inv g k] d Some show ?thesis
      by (auto simp: collapse_iter_def)
  qed
qed

lemma collapse_iter_None:
  assumes "iter_ok ord" "collapse_iter room ord ms r = Inr None"
  shows "cycle_free_from ms r \<and> r \<in> keys ms"
proof -
  from assms(2) have d: "detect_loop room ord ms r [] = Inr None"
    by (auto simp: collapse_iter_def split: sum.splits option.splits)
  show ?thesis
    using detect_None_cycle_free[OF assms(1) d] detect_loop_root_key[OF d] by simp
qed

lemma collapse_iter_Inl:
  assumes "iter_ok ord" "reg_inv ms" "collapse_iter room ord ms r = Inl e"
  shows "r \<notin> keys ms \<or> room \<le> length ms"
  using collapse_iter_total[OF assms(1,2), of r room] assms(3)
  by (cases "length ms < room") auto

lemma collapse_loop_result:
  assumes ok: "iter_ok ord"
  shows "reg_inv ms \<Longrightarrow>
    \<exists>res. collapse_loop room ord ms r = Some res
      \<and> (\<forall>e. res = Inl e \<longrightarrow> r \<notin> keys ms \<or> room \<le> length ms)
      \<and> (\<forall>ms' r'. res = Inr (ms', r') \<longrightarrow>
            reg_inv ms' \<and> cycle_free_from ms' r' \<and> r' \<in> keys ms' \<and> r \<in> keys ms
            \<and> length ms' \<le> length ms)"
proof (induction "length ms" arbitrary: ms r rule: less_induct)
  case less
  show ?case
  proof (cases "collapse_iter room ord ms r")
    case (Inl e)
    then have "collapse_loop room ord ms r = Some (Inl e)"
      by (subst collapse_loop.simps) simp
    moreover have "r \<notin> keys ms \<or> room \<le> length ms"
      using ok less.prems Inl by (rule collapse_iter_Inl)
    ultimately show ?thesis by simp
  next
    case (Inr x)
    show ?thesis
    proof (cases x)
      case None
      with Inr have "collapse_loop room ord ms r = Some (Inr (ms, r))"
        by (subst collapse_loop.simps) simp
      moreover have "cycle_free_from ms r \<and> r \<in> keys ms"
        using Inr None by (intro collapse_iter_None[OF ok]) simp
      ultimately show ?thesis using less.prems by simp
    next
      case (Some s)
      obtain ms1 r1 where s: "s = (ms1, r1)" by (cases s)
      have it: "collapse_iter room ord ms r = Inr (Some (ms1, r1))" using Inr Some s by simp
      from collapse_iter_Some[OF ok less.prems it]
      have inv1: "reg_inv ms1" and lt: "length ms1 < length ms" and k: "r \<in> keys ms"
        and k1: "r1 \<in> keys ms1"
        by simp_all
      from less.hyps[OF lt inv1, of r1] obtain res where
        r: "collapse_loop room ord ms1 r1 = Some res"
        and rr: "\<forall>ms' r'. res = Inr (ms', r') \<longrightarrow>
            reg_inv ms' \<and> cycle_free_from ms' r' \<and> r' \<in> keys ms' \<and> r1 \<in> keys ms1
            \<and> length ms' \<le> length ms1"
        and re: "\<forall>e. res = Inl e \<longrightarrow> r1 \<notin> keys ms1 \<or> room \<le> length ms1"
        by (elim exE conjE)
      have "collapse_loop room ord ms r = Some res"
        using it r by (subst collapse_loop.simps) simp
      moreover have "\<forall>e. res = Inl e \<longrightarrow> room \<le> length ms"
        using re k1 lt by auto
      ultimately show ?thesis using rr lt k by auto
    qed
  qed
qed

lemma collapse_reach_inv:
  assumes ok: "iter_ok ord"
  shows "collapse_reach room ord s0 s \<Longrightarrow> reg_inv (fst s0) \<Longrightarrow> reg_inv (fst s)"
proof (induction rule: collapse_reach.induct)
  case start
  then show ?case by simp
next
  case (step ms r s')
  then have "reg_inv ms" by simp
  with ok step.hyps(2) show ?case
    by (cases s') (auto dest: collapse_iter_Some)
qed

section \<open>Termination and result of the collapse loop\<close>

lemma ex_cycle_run:
  "collapse_loop 1000 id ex_cycle ''a'' =
     Some (Inr (ex_cycle_collapsed, ''a'' @ [CHR 0x0A] @ ''b'' @ [CHR 0x0A] @ ''c''))"
  by (simp add: collapse_loop.simps collapse_iter_def detect_loop.simps list_index_def
      collapse_step_def ex_cycle_def ex_cycle_collapsed_def Module_init_def store_def keys_def
      set_update_def set_add_def set_remove_def rename_dependency_def rename_in_def Let_def)

text \<open>
  Claim C1. For a registry with no self-loops and no dangling edges, under any iteration
  order of the dependency sets and with any room for recursion, the \<^verbatim>\<open>while True\<close> loop of
  \<^verbatim>\<open>collapse_modules\<close> stops. When the root is a key and the registry has fewer modules
  than the recursion limit leaves room for nested calls of \<^verbatim>\<open>_detect_loop\<close>, it stops
  without an exception (when the root is not a key \<^verbatim>\<open>_detect_loop\<close> raises at once, and in
  a registry with more modules it can raise \<^verbatim>\<open>RecursionError\<close>). When it stops without an
  exception, no dependency cycle is reachable from the root name it ends with. And every
  full iteration, from any state the loop passes through, leaves the registry with fewer
  modules than it found.
\<close>

theorem collapse_loop_terminates_acyclic:
  assumes "iter_ok ord" "wf_registry ms" "no_self_loops ms" "no_dangling ms"
  shows "(\<exists>res. collapse_loop room ord ms root = Some res
            \<and> (root \<in> keys ms \<and> length ms < room \<longrightarrow> (\<exists>ms' root'. res = Inr (ms', root')))
            \<and> (\<forall>ms' root'. res = Inr (ms', root') \<longrightarrow> cycle_free_from ms' root'))
       \<and> (\<forall>ms1 r1 ms2 r2. collapse_reach room ord (ms, root) (ms1, r1)
            \<longrightarrow> collapse_iter room ord ms1 r1 = Inr (Some (ms2, r2))
            \<longrightarrow> length ms2 < length ms1)"
proof -
  have inv: "reg_inv ms" using assms by (simp add: reg_inv_def)
  from collapse_loop_result[OF assms(1) inv, of room root] obtain res where
    r: "collapse_loop room ord ms root = Some res"
    and re: "\<forall>e. res = Inl e \<longrightarrow> root \<notin> keys ms \<or> room \<le> length ms"
    and rr: "\<forall>ms' r'. res = Inr (ms', r') \<longrightarrow>
            reg_inv ms' \<and> cycle_free_from ms' r' \<and> r' \<in> keys ms' \<and> root \<in> keys ms
            \<and> length ms' \<le> length ms"
    by (elim exE conjE)
  have a: "root \<in> keys ms \<and> length ms < room \<longrightarrow> (\<exists>ms' root'. res = Inr (ms', root'))"
    using re by (cases res) auto
  have b: "\<forall>ms' root'. res = Inr (ms', root') \<longrightarrow> cycle_free_from ms' root'"
    using rr by blast
  have c: "length ms2 < length ms1"
    if "collapse_reach room ord (ms, root) (ms1, r1)"
      "collapse_iter room ord ms1 r1 = Inr (Some (ms2, r2))"
    for ms1 r1 ms2 r2
  proof -
    have "reg_inv ms1" using collapse_reach_inv[OF assms(1) that(1)] inv by simp
    from collapse_iter_Some[OF assms(1) this that(2)] show ?thesis by simp
  qed
  from r a b c show ?thesis by blast
qed

theorem collapse_loop_terminates_acyclic_witness:
  "iter_ok id \<and> wf_registry ex_cycle \<and> no_self_loops ex_cycle \<and> no_dangling ex_cycle
   \<and> ''a'' \<in> keys ex_cycle \<and> length ex_cycle < 1000
   \<and> collapse_loop 1000 id ex_cycle ''a'' =
       Some (Inr (ex_cycle_collapsed, ''a'' @ [CHR 0x0A] @ ''b'' @ [CHR 0x0A] @ ''c''))
   \<and> cycle_free_from ex_cycle_collapsed (''a'' @ [CHR 0x0A] @ ''b'' @ [CHR 0x0A] @ ''c'')
   \<and> length ex_cycle_collapsed < length ex_cycle"
proof -
  have 1: "iter_ok id" by (simp add: iter_ok_def)
  have 2: "wf_registry ex_cycle" by (simp add: wf_registry_def ex_cycle_def)
  have 3: "no_self_loops ex_cycle" by (simp add: no_self_loops_def ex_cycle_def)
  have 4: "no_dangling ex_cycle" by (simp add: no_dangling_def ex_cycle_def keys_def)
  have 5: "''a'' \<in> keys ex_cycle" by (simp add: keys_def ex_cycle_def)
  have 6: "length ex_cycle_collapsed < length ex_cycle"
    by (simp add: ex_cycle_def ex_cycle_collapsed_def)
  have 7: "length ex_cycle < 1000" by (simp add: ex_cycle_def)
  from collapse_loop_terminates_acyclic[OF 1 2 3 4, of 1000 "''a''"] ex_cycle_run
  have "cycle_free_from ex_cycle_collapsed (''a'' @ [CHR 0x0A] @ ''b'' @ [CHR 0x0A] @ ''c'')"
    by simp
  with 1 2 3 4 5 6 7 ex_cycle_run show ?thesis by simp
qed

section \<open>A ring deeper than the recursion limit\<close>

lemma ring_name_eq [simp]: "ring_name i = ring_name j \<longleftrightarrow> i = j"
  by (auto simp: ring_name_def dest: arg_cong[where f = length])

lemma map_fst_ring: "map fst (ring n) = map ring_name [0..<n]"
  by (simp add: ring_def comp_def)

lemma keys_ring: "keys (ring n) = ring_name ` {0..<n}"
  by (simp add: keys_def ring_def image_image)

lemma map_of_ring_aux:
  "i \<in> set xs \<Longrightarrow>
   map_of (map (\<lambda>i. (ring_name i, ring_module n i)) xs) (ring_name i) = Some (ring_module n i)"
  by (induction xs) auto

lemma map_of_ring: "i < n \<Longrightarrow> map_of (ring n) (ring_name i) = Some (ring_module n i)"
  unfolding ring_def by (rule map_of_ring_aux) simp

lemma ring_wf: "wf_registry (ring n)"
  by (auto simp: wf_registry_def map_fst_ring distinct_map inj_on_def ring_def ring_module_def)

lemma ring_no_dangling: "no_dangling (ring n)"
proof -
  have "d \<in> keys (ring n)" if "(k, m) \<in> set (ring n)" "d \<in> set (dependencies m)" for k m d
  proof -
    from that(1) obtain i where i: "i < n" "m = ring_module n i" by (auto simp: ring_def)
    with that(2) have "d = ring_name (Suc i mod n)" by (simp add: ring_module_def)
    with i(1) show ?thesis by (simp add: keys_ring)
  qed
  then show ?thesis unfolding no_dangling_def by auto
qed

lemma ring_no_self_loops: "2 \<le> n \<Longrightarrow> no_self_loops (ring n)"
  by (auto simp: no_self_loops_def ring_def ring_module_def mod_Suc)

lemma ring_edge: "i < n \<Longrightarrow> (ring_name i, ring_name (Suc i mod n)) \<in> edges (ring n)"
  by (simp add: edges_def map_of_ring ring_module_def)

lemma ring_path: "k < n \<Longrightarrow> (ring_name 0, ring_name k) \<in> (edges (ring n))\<^sup>*"
proof (induction k)
  case 0
  show ?case by simp
next
  case (Suc k)
  then have "(ring_name 0, ring_name k) \<in> (edges (ring n))\<^sup>*" by simp
  moreover have "(ring_name k, ring_name (Suc k)) \<in> edges (ring n)"
    using ring_edge[of k n] Suc.prems by simp
  ultimately show ?case by (rule rtrancl_into_rtrancl)
qed

lemma ring_cyclic:
  assumes n: "0 < n"
  shows "\<not> cycle_free_from (ring n) (ring_name 0)"
proof -
  have "(ring_name 0, ring_name (n - 1)) \<in> (edges (ring n))\<^sup>*"
    using n by (intro ring_path) simp
  moreover have "(ring_name (n - 1), ring_name 0) \<in> edges (ring n)"
    using ring_edge[of "n - 1" n] n by simp
  ultimately have "(ring_name 0, ring_name 0) \<in> (edges (ring n))\<^sup>+"
    by (rule rtrancl_into_trancl1)
  then show ?thesis
    unfolding cycle_free_from_def reachable_def by blast
qed

text \<open>
  With room for no more nested calls than the ring has modules, \<^verbatim>\<open>_detect_loop\<close> walks
  along the ring until the room is used up: after \<open>k\<close> modules, with room for \<open>n - k\<close> calls
  or fewer, the call for the next module ends in \<^verbatim>\<open>RecursionError\<close>.
\<close>

lemma ring_detect:
  assumes ok: "iter_ok ord"
  shows "room + k \<le> n \<Longrightarrow> (k < n \<longrightarrow> s = ring_name k)
    \<Longrightarrow> detect_loop room ord (ring n) s (map ring_name [0..<k]) = Inl RecursionError"
proof (induction room arbitrary: k s)
  case 0
  show ?case by (simp add: detect_loop.simps)
next
  case (Suc room)
  then have k: "k < n" and s: "s = ring_name k" by simp_all
  have nv: "ring_name k \<notin> set (map ring_name [0..<k])" by auto
  have ih: "detect_loop room ord (ring n) (ring_name (Suc k mod n)) (map ring_name [0..<Suc k])
      = Inl RecursionError"
    using Suc.prems(1) by (intro Suc.IH) (auto simp: mod_Suc)
  show ?case
    unfolding s
    apply (subst detect_loop.simps)
    using nv ih k
    by (simp add: map_of_ring ring_module_def iter_ok_single[OF ok] del: set_map)
qed

lemma ring_collapse:
  assumes "iter_ok ord" "room \<le> n"
  shows "collapse_loop room ord (ring n) (ring_name 0) = Some (Inl RecursionError)"
  using ring_detect[OF assms(1), of room 0 n "ring_name 0"] assms(2)
  by (subst collapse_loop.simps) (simp add: collapse_iter_def)

text \<open>
  The claim C1 as the specification states it, without a bound on the size of the
  registry, fails on a ring of 1000 modules when the recursion limit leaves room for 1000
  nested calls of \<^verbatim>\<open>_detect_loop\<close> (the default limit of CPython is 1000 frames in all): the
  registry has no self-loops and no dangling edges and the root is a key, but the first
  iteration of the collapse loop ends in \<^verbatim>\<open>RecursionError\<close>, and the registry, which
  \<^verbatim>\<open>_detect_loop\<close> does not change, still has a cycle through the root.
\<close>

theorem collapse_loop_ring_recursion_error:
  "iter_ok id \<and> wf_registry (ring 1000) \<and> no_self_loops (ring 1000) \<and> no_dangling (ring 1000)
   \<and> ring_name 0 \<in> keys (ring 1000)
   \<and> collapse_loop 1000 id (ring 1000) (ring_name 0) = Some (Inl RecursionError)
   \<and> \<not> cycle_free_from (ring 1000) (ring_name 0)"
proof -
  have ok: "iter_ok id" by (simp add: iter_ok_def)
  have "ring_name 0 \<in> keys (ring 1000)" by (simp add: keys_ring)
  then show ?thesis
    using ok ring_wf[of 1000] ring_no_self_loops[of 1000] ring_no_dangling[of 1000]
      ring_collapse[OF ok, of 1000 1000] ring_cyclic[of 1000]
    by simp
qed

section \<open>The simple two-cycle\<close>

lemma two_cycle_detect:
  assumes "a \<noteq> b" "iter_ok ord"
    and "map_of ms a = Some ma" "map_of ms b = Some mb"
    and "dependencies ma = [b]" "dependencies mb = [a]"
    and "3 \<le> room"
  shows "detect_loop room ord ms a [] = Inr (Some [a, b])"
  using assms by (simp add: detect_loop.simps iter_ok_single list_index_def)

lemma two_cycle_no_room:
  assumes "a \<noteq> b" "iter_ok ord"
    and "map_of ms a = Some ma" "map_of ms b = Some mb"
    and "dependencies ma = [b]" "dependencies mb = [a]"
    and "room < 3"
  shows "detect_loop room ord ms a [] = Inl RecursionError"
proof -
  from assms(7) consider "room = 0" | "room = 1" | "room = 2" by linarith
  then show ?thesis
    using assms(1-6) by cases (simp_all add: detect_loop.simps iter_ok_single)
qed

lemma two_cycle_step:
  assumes "a \<noteq> b"
    and "ms = [(a, ma), (b, mb)] \<or> ms = [(b, mb), (a, ma)]"
    and "dependencies ma = [b]" "dependencies mb = [a]"
  shows "collapse_step ms a [a, b] =
     Inr ([(a @ [CHR 0x0A] @ b,
            \<lparr>name = a @ [CHR 0x0A] @ b,
              packages = set_update (set_update [] (packages ma)) (packages mb),
              dependencies = [], own_rss = 0, total_rss = 0\<rparr>)],
          a @ [CHR 0x0A] @ b)"
proof -
  have n: "a @ [CHR 0x0A] @ b \<noteq> a" "a @ [CHR 0x0A] @ b \<noteq> b"
          "a \<noteq> a @ [CHR 0x0A] @ b" "b \<noteq> a @ [CHR 0x0A] @ b"
    by (auto simp: append_eq_conv_conj dest: arg_cong[where f=length])
  from assms(2) show ?thesis
  proof
    assume "ms = [(a, ma), (b, mb)]"
    then show ?thesis
      using assms(1,3,4) n
      by (simp add: collapse_step_def Module_init_def store_def keys_def Let_def
          set_update_def[of "[]" "[b]"] set_update_def[of "[b]" "[a]"] set_add_def set_remove_def rename_dependency_def rename_in_def)
  next
    assume "ms = [(b, mb), (a, ma)]"
    then show ?thesis
      using assms(1,3,4) n
      by (simp add: collapse_step_def Module_init_def store_def keys_def Let_def
          set_update_def[of "[]" "[b]"] set_update_def[of "[b]" "[a]"] set_add_def set_remove_def rename_dependency_def rename_in_def)
  qed
qed

text \<open>
  Claim C5. A registry holds exactly the modules \<open>a\<close> and \<open>b\<close> (in either dict order),
  \<open>a\<close> depends on \<open>b\<close> only and \<open>b\<close> on \<open>a\<close> only, and the root is \<open>a\<close>.
  \<^verbatim>\<open>_detect_loop\<close> makes three nested calls here (for \<open>a\<close>, for \<open>b\<close>, for \<open>a\<close> again). When
  the recursion limit leaves room for them, \<^verbatim>\<open>_detect_loop\<close> finds the loop with the
  members \<open>a\<close> and \<open>b\<close>, and one iteration of the collapse loop leaves a registry with one
  module, named by joining \<open>a\<close> and \<open>b\<close> with a newline, whose packages are those of \<open>a\<close>
  and of \<open>b\<close> together, with no dependencies; the root name becomes the name of that
  module. With less room the iteration raises \<^verbatim>\<open>RecursionError\<close>.
\<close>

theorem simple_two_cycle_collapse:
  assumes "a \<noteq> b" "iter_ok ord"
    and "ms = [(a, ma), (b, mb)] \<or> ms = [(b, mb), (a, ma)]"
    and "dependencies ma = [b]" "dependencies mb = [a]"
  shows "(3 \<le> room \<longrightarrow>
      (\<exists>P. detect_loop room ord ms a [] = Inr (Some [a, b])
        \<and> collapse_iter room ord ms a =
            Inr (Some ([(a @ [CHR 0x0A] @ b,
                         \<lparr>name = a @ [CHR 0x0A] @ b, packages = P, dependencies = [],
                           own_rss = 0, total_rss = 0\<rparr>)],
                       a @ [CHR 0x0A] @ b))
        \<and> set P = set (packages ma) \<union> set (packages mb)))
    \<and> (room < 3 \<longrightarrow> collapse_iter room ord ms a = Inl RecursionError)"
proof (intro conjI impI)
  have m: "map_of ms a = Some ma" "map_of ms b = Some mb"
    using assms(1,3) by auto
  {
    assume room: "3 \<le> room"
    have d: "detect_loop room ord ms a [] = Inr (Some [a, b])"
      using assms(1,2) m assms(4,5) room by (rule two_cycle_detect)
    have c: "collapse_step ms a [a, b] =
       Inr ([(a @ [CHR 0x0A] @ b,
              \<lparr>name = a @ [CHR 0x0A] @ b,
                packages = set_update (set_update [] (packages ma)) (packages mb),
                dependencies = [], own_rss = 0, total_rss = 0\<rparr>)],
            a @ [CHR 0x0A] @ b)"
      using assms(1,3,4,5) by (rule two_cycle_step)
    have "set (set_update (set_update [] (packages ma)) (packages mb))
        = set (packages ma) \<union> set (packages mb)"
      by simp
    with d c show "\<exists>P. detect_loop room ord ms a [] = Inr (Some [a, b])
        \<and> collapse_iter room ord ms a =
            Inr (Some ([(a @ [CHR 0x0A] @ b,
                         \<lparr>name = a @ [CHR 0x0A] @ b, packages = P, dependencies = [],
                           own_rss = 0, total_rss = 0\<rparr>)],
                       a @ [CHR 0x0A] @ b))
        \<and> set P = set (packages ma) \<union> set (packages mb)"
      by (simp add: collapse_iter_def)
  }
  {
    assume "room < 3"
    with assms(1,2) m assms(4,5) have "detect_loop room ord ms a [] = Inl RecursionError"
      by (rule two_cycle_no_room)
    then show "collapse_iter room ord ms a = Inl RecursionError"
      by (simp add: collapse_iter_def)
  }
qed

theorem simple_two_cycle_collapse_witness:
  "''A'' \<noteq> ''B'' \<and> iter_ok rev
   \<and> dependencies ex_A = [''B''] \<and> dependencies ex_B = [''A'']
   \<and> detect_loop 1000 rev [(''B'', ex_B), (''A'', ex_A)] ''A'' [] = Inr (Some [''A'', ''B''])
   \<and> collapse_iter 1000 rev [(''B'', ex_B), (''A'', ex_A)] ''A'' =
        Inr (Some ([(''A'' @ [CHR 0x0A] @ ''B'',
                     \<lparr>name = ''A'' @ [CHR 0x0A] @ ''B'', packages = [''A'', ''A.x'', ''B''],
                       dependencies = [], own_rss = 0, total_rss = 0\<rparr>)],
                   ''A'' @ [CHR 0x0A] @ ''B''))
   \<and> collapse_iter 2 rev [(''B'', ex_B), (''A'', ex_A)] ''A'' = Inl RecursionError"
proof -
  have 1: "''A'' \<noteq> ''B''" by simp
  have 2: "iter_ok rev" by (simp add: iter_ok_def)
  have 3: "[(''B'', ex_B), (''A'', ex_A)] = [(''A'', ex_A), (''B'', ex_B)]
         \<or> [(''B'', ex_B), (''A'', ex_A)] = [(''B'', ex_B), (''A'', ex_A)]" by simp
  have 4: "dependencies ex_A = [''B'']" by (simp add: ex_A_def)
  have 5: "dependencies ex_B = [''A'']" by (simp add: ex_B_def)
  have "\<exists>P. detect_loop 1000 rev [(''B'', ex_B), (''A'', ex_A)] ''A'' []
          = Inr (Some [''A'', ''B''])
      \<and> collapse_iter 1000 rev [(''B'', ex_B), (''A'', ex_A)] ''A'' =
        Inr (Some ([(''A'' @ [CHR 0x0A] @ ''B'',
                     \<lparr>name = ''A'' @ [CHR 0x0A] @ ''B'', packages = P,
                       dependencies = [], own_rss = 0, total_rss = 0\<rparr>)],
                   ''A'' @ [CHR 0x0A] @ ''B''))
      \<and> set P = set (packages ex_A) \<union> set (packages ex_B)"
    using simple_two_cycle_collapse[OF 1 2 3 4 5, of 1000] by simp
  then have d: "detect_loop 1000 rev [(''B'', ex_B), (''A'', ex_A)] ''A'' []
      = Inr (Some [''A'', ''B''])"
    by (elim exE conjE)
  have s: "collapse_iter 2 rev [(''B'', ex_B), (''A'', ex_A)] ''A'' = Inl RecursionError"
    using simple_two_cycle_collapse[OF 1 2 3 4 5, of 2] by simp
  have "collapse_iter 1000 rev [(''B'', ex_B), (''A'', ex_A)] ''A'' =
        Inr (Some ([(''A'' @ [CHR 0x0A] @ ''B'',
                     \<lparr>name = ''A'' @ [CHR 0x0A] @ ''B'', packages = [''A'', ''A.x'', ''B''],
                       dependencies = [], own_rss = 0, total_rss = 0\<rparr>)],
                   ''A'' @ [CHR 0x0A] @ ''B''))"
    by (simp add: collapse_iter_def detect_loop.simps list_index_def
      collapse_step_def ex_A_def ex_B_def Module_init_def store_def keys_def
      set_update_def set_add_def set_remove_def rename_dependency_def rename_in_def Let_def)
  with 1 2 4 5 d s show ?thesis by simp
qed

section \<open>Pruning: what it leaves alone\<close>

declare eliminate_loop.simps [simp del]

lemma shrinks_refl: "shrinks ms ms"
  unfolding shrinks_def by (rule list_all2_refl) auto

lemma shrinks_trans:
  assumes "shrinks a b" "shrinks b c"
  shows "shrinks a c"
  unfolding shrinks_def
proof (rule list_all2_trans[OF _ assms(1)[unfolded shrinks_def] assms(2)[unfolded shrinks_def]],
    goal_cases)
  case (1 x y z)
  obtain k1 m1 k2 m2 k3 m3 where "x = (k1, m1)" "y = (k2, m2)" "z = (k3, m3)"
    by (cases x, cases y, cases z) auto
  with 1 show ?case by auto
qed

lemma shrinks_keys: "shrinks ms ms' \<Longrightarrow> map fst ms' = map fst ms"
  unfolding shrinks_def by (induction rule: list_all2_induct) auto

lemma shrinks_update:
  "map_of ms k = Some m \<Longrightarrow> set d \<subseteq> set (dependencies m)
   \<Longrightarrow> shrinks ms (AList.update k (m\<lparr>dependencies := d\<rparr>) ms)"
proof (induction ms)
  case Nil
  then show ?case by simp
next
  case (Cons p ms)
  show ?case
  proof (cases "fst p = k")
    case True
    with Cons.prems have "snd p = m" by (cases p) auto
    with True Cons.prems(2) show ?thesis
      using shrinks_refl[of ms] by (cases p) (auto simp: shrinks_def)
  next
    case False
    with Cons show ?thesis by (cases p) (auto simp: shrinks_def)
  qed
qed

lemma shrinks_map_of:
  "shrinks ms ms' \<Longrightarrow> map_of ms' k = Some m' \<Longrightarrow>
   \<exists>m. map_of ms k = Some m \<and> name m' = name m \<and> packages m' = packages m
     \<and> own_rss m' = own_rss m \<and> total_rss m' = total_rss m
     \<and> set (dependencies m') \<subseteq> set (dependencies m)"
  unfolding shrinks_def by (induction rule: list_all2_induct) (auto split: if_splits)

lemma eliminate_loop_shrinks:
  "eliminate_loop ord ms n = Inr ms' \<Longrightarrow> shrinks ms ms'"
proof (induction ord ms n rule: eliminate_loop.induct)
  case (1 ord modules mod_name)
  from "1.prems" obtain m where m: "map_of modules mod_name = Some m"
    by (auto simp: eliminate_loop.simps[of ord modules mod_name] split: option.splits)
  from "1.prems" m obtain r where r: "find_eliminate ord modules mod_name (ord (dependencies m)) = Inr r"
    by (auto simp: eliminate_loop.simps[of ord modules mod_name] split: sum.splits)
  show ?case
  proof (cases r)
    case None
    with "1.prems" m r show ?thesis
      by (simp add: eliminate_loop.simps[of ord modules mod_name] shrinks_refl)
  next
    case (Some e)
    with "1.prems" m r obtain d where d: "set_remove e (dependencies m) = Inr d"
      and rec: "eliminate_loop ord (AList.update mod_name (m\<lparr>dependencies := d\<rparr>) modules) mod_name
          = Inr ms'"
      by (auto simp: eliminate_loop.simps[of ord modules mod_name] split: sum.splits)
    have "set d \<subseteq> set (dependencies m)"
      using d by (auto simp: set_remove_def split: if_splits)
    then have "shrinks modules (AList.update mod_name (m\<lparr>dependencies := d\<rparr>) modules)"
      using m by (intro shrinks_update)
    moreover have "shrinks (AList.update mod_name (m\<lparr>dependencies := d\<rparr>) modules) ms'"
      using "1.IH"[OF m r Some d rec] .
    ultimately show ?thesis by (rule shrinks_trans)
  qed
qed

lemma prune_loop_shrinks:
  assumes "prune_loop ord ms q = Some res"
  shows "\<forall>ms'. res = Inr ms' \<longrightarrow> shrinks ms ms'"
proof (rule prune_loop.raw_induct[where P = "\<lambda>ord ms q res. \<forall>ms'. res = Inr ms' \<longrightarrow> shrinks ms ms'",
      OF _ assms], goal_cases)
  case (1 f ord modules queue res)
  show ?case
  proof (intro allI impI)
    fix ms' assume res: "res = Inr ms'"
    show "shrinks modules ms'"
    proof (cases "queue = []")
      case True
      with 1(2) res show ?thesis by (simp add: shrinks_refl)
    next
      case False
      with 1(2) res obtain modules1 m where
        e: "eliminate_loop ord modules (last queue) = Inr modules1"
        and m: "map_of modules1 (last queue) = Some m"
        and r: "f ord modules1 (butlast queue @ ord (dependencies m)) = Some res"
        by (auto split: sum.splits option.splits)
      from 1(1)[OF r] res have "shrinks modules1 ms'" by simp
      with eliminate_loop_shrinks[OF e] show ?thesis by (rule shrinks_trans)
    qed
  qed
qed

lemma ex_diamond_run: "prune id ex_diamond ''A'' = Some (Inr ex_diamond_pruned)"
  by (simp add: prune_def prune_loop.simps eliminate_loop.simps dependency_can_be_removed_def
      set_remove_def ex_diamond_def ex_diamond_pruned_def)

text \<open>
  Claim C10. Whenever the pruning phase of \<^verbatim>\<open>collapse_modules\<close> returns, the registry has
  the same keys in the same order, and each module has its name, packages, own RSS and
  total RSS unchanged and a dependency set that is a subset of the one it had.
\<close>

theorem prune_only_shrinks:
  assumes "prune ord ms root = Some (Inr ms')"
  shows "map fst ms' = map fst ms \<and> keys ms' = keys ms \<and> shrinks ms ms'
    \<and> (\<forall>k m'. map_of ms' k = Some m' \<longrightarrow>
          (\<exists>m. map_of ms k = Some m \<and> name m' = name m \<and> packages m' = packages m
             \<and> own_rss m' = own_rss m \<and> total_rss m' = total_rss m
             \<and> set (dependencies m') \<subseteq> set (dependencies m)))"
proof -
  have s: "shrinks ms ms'"
    using prune_loop_shrinks[OF assms[unfolded prune_def]] by simp
  have k: "map fst ms' = map fst ms" using s by (rule shrinks_keys)
  have "keys ms' = keys ms" using arg_cong[OF k, of set] by (simp add: keys_def)
  with s k shrinks_map_of[OF s] show ?thesis by blast
qed

theorem prune_only_shrinks_witness:
  "prune id ex_diamond ''A'' = Some (Inr ex_diamond_pruned)
   \<and> map fst ex_diamond_pruned = map fst ex_diamond
   \<and> shrinks ex_diamond ex_diamond_pruned
   \<and> map_option dependencies (map_of ex_diamond_pruned ''A'') = Some [''B'', ''C'']
   \<and> map_option dependencies (map_of ex_diamond ''A'') = Some [''B'', ''C'', ''D'']"
proof -
  have "map fst ex_diamond_pruned = map fst ex_diamond
        \<and> shrinks ex_diamond ex_diamond_pruned"
    using prune_only_shrinks[OF ex_diamond_run] by simp
  then show ?thesis
    using ex_diamond_run by (simp add: ex_diamond_def ex_diamond_pruned_def)
qed

section \<open>Pruning: termination and reachability\<close>

lemma finite_edges: "finite (edges ms)"
proof -
  have "edges ms \<subseteq> fst ` set ms \<times> (\<Union>p \<in> set ms. set (dependencies (snd p)))"
    by (force simp: edges_def dest!: map_of_SomeD)
  then show ?thesis by (rule finite_subset) simp
qed

lemma wf_prune_order:
  assumes "cycle_free_from ms0 root"
  shows "wf (prune_order ms0 root)"
proof (rule finite_acyclic_wf)
  have sub: "prune_order ms0 root \<subseteq> (edges ms0)\<inverse>"
    by (auto simp: prune_order_def)
  show "finite (prune_order ms0 root)"
    using sub by (rule finite_subset) (simp add: finite_edges)
  show "acyclic (prune_order ms0 root)"
  proof (rule acyclicI, intro allI notI)
    fix x assume c: "(x, x) \<in> (prune_order ms0 root)\<^sup>+"
    have "(x, x) \<in> ((edges ms0)\<inverse>)\<^sup>+" using trancl_mono[OF c sub] .
    then have cyc: "(x, x) \<in> (edges ms0)\<^sup>+" by (simp add: trancl_converse)
    from c obtain y where "(x, y) \<in> prune_order ms0 root" by (meson tranclD)
    then have "(root, x) \<in> (edges ms0)\<^sup>*"
      by (auto simp: prune_order_def intro: rtrancl_into_rtrancl)
    with cyc assms show False by (auto simp: cycle_free_from_def reachable_def)
  qed
qed

lemma reach_in_keys:
  assumes "no_dangling ms" "a \<in> keys ms" "(a, n) \<in> (edges ms)\<^sup>*"
  shows "n \<in> keys ms"
  using assms(3,2)
proof (induction rule: rtrancl_induct)
  case base
  then show ?case .
next
  case (step y z)
  from step(2) obtain m where "map_of ms y = Some m" "z \<in> set (dependencies m)"
    by (auto simp: edges_iff)
  with assms(1) show ?case by (auto simp: no_dangling_def dest!: map_of_SomeD)
qed

lemma shrinks_no_dangling:
  assumes "shrinks ms ms'" "no_dangling ms"
  shows "no_dangling ms'"
proof -
  have k: "keys ms' = keys ms"
    using arg_cong[OF shrinks_keys[OF assms(1)], of set] by (simp add: keys_def)
  have "\<forall>p' \<in> set ms'. \<exists>p \<in> set ms. set (dependencies (snd p')) \<subseteq> set (dependencies (snd p))"
    using assms(1) unfolding shrinks_def
    by (induction rule: list_all2_induct) auto
  with assms(2) show ?thesis
    unfolding no_dangling_def k by fastforce
qed

lemma edges_update:
  "edges (AList.update n m' ms) = {(a, b). a \<noteq> n \<and> (a, b) \<in> edges ms} \<union> {n} \<times> set (dependencies m')"
  by (auto simp: edges_def update_conv' split: if_splits)

lemma can_be_removed_loop_True:
  "can_be_removed_loop ms deps e = Inr True \<Longrightarrow>
   \<exists>c \<in> set deps. c \<noteq> e \<and> (\<exists>mc. map_of ms c = Some mc \<and> e \<in> set (dependencies mc))"
  by (induction deps) (auto split: if_splits option.splits)

lemma can_be_removed_loop_total:
  "set deps \<subseteq> keys ms \<Longrightarrow> \<exists>b. can_be_removed_loop ms deps e = Inr b"
proof (induction deps)
  case Nil
  show ?case by auto
next
  case (Cons d deps)
  have "d \<in> keys ms" using Cons.prems by simp
  then obtain md where "map_of ms d = Some md" using keys_map_of by blast
  with Cons show ?case by auto
qed

lemma find_eliminate_Some:
  "find_eliminate ord ms n ds = Inr (Some e) \<Longrightarrow>
   e \<in> set ds \<and> dependency_can_be_removed ord ms n e = Inr True"
  by (induction ds) (auto split: sum.splits bool.splits)

lemma find_eliminate_total:
  assumes "map_of ms n = Some m" "set (ord (dependencies m)) \<subseteq> keys ms"
  shows "\<exists>r. find_eliminate ord ms n ds = Inr r"
proof (induction ds)
  case Nil
  then show ?case by simp
next
  case (Cons d ds)
  obtain b where "dependency_can_be_removed ord ms n d = Inr b"
    using can_be_removed_loop_total[OF assms(2), of d] assms(1)
    by (auto simp: dependency_can_be_removed_def)
  with Cons show ?case by (cases b) auto
qed

lemma eliminate_loop_good:
  assumes ok: "iter_ok ord"
  shows "n \<in> keys ms \<Longrightarrow> no_dangling ms \<Longrightarrow> (n, n) \<notin> edges ms \<Longrightarrow>
    \<exists>ms1. eliminate_loop ord ms n = Inr ms1 \<and> edges ms1 \<subseteq> edges ms
       \<and> edges ms \<subseteq> (edges ms1)\<^sup>*"
  using ok
proof (induction ord ms n rule: eliminate_loop.induct)
  case (1 ord modules mod_name)
  note ok = "1.prems"(4)
  obtain m where m: "map_of modules mod_name = Some m"
    using "1.prems"(1) keys_map_of by blast
  have dk: "set (dependencies m) \<subseteq> keys modules"
    using m "1.prems"(2) by (auto simp: no_dangling_def dest!: map_of_SomeD)
  then have "set (ord (dependencies m)) \<subseteq> keys modules" by (simp add: iter_ok_set[OF ok])
  from find_eliminate_total[of modules mod_name m ord "ord (dependencies m)", OF m this]
  obtain r where
    r: "find_eliminate ord modules mod_name (ord (dependencies m)) = Inr r" by blast
  show ?case
  proof (cases r)
    case None
    with m r have "eliminate_loop ord modules mod_name = Inr modules"
      by (simp add: eliminate_loop.simps[of ord modules mod_name])
    then show ?thesis by auto
  next
    case (Some e)
    from find_eliminate_Some[OF r[unfolded Some]]
    have e: "e \<in> set (dependencies m)"
      and cr: "dependency_can_be_removed ord modules mod_name e = Inr True"
      by (simp_all add: iter_ok_set[OF ok])
    from cr m have "can_be_removed_loop modules (ord (dependencies m)) e = Inr True"
      by (simp add: dependency_can_be_removed_def)
    from can_be_removed_loop_True[OF this] obtain c mc where
      c: "c \<in> set (dependencies m)" "c \<noteq> e" "map_of modules c = Some mc"
         "e \<in> set (dependencies mc)"
      by (auto simp: iter_ok_set[OF ok])
    have cn: "c \<noteq> mod_name"
      using c(1) m "1.prems"(3) by (auto simp: edges_iff)
    define d where "d = removeAll e (dependencies m)"
    define ms' where "ms' = AList.update mod_name (m\<lparr>dependencies := d\<rparr>) modules"
    have sr: "set_remove e (dependencies m) = Inr d"
      using e by (simp add: set_remove_def d_def)
    have ed: "edges ms' = {(a, b). a \<noteq> mod_name \<and> (a, b) \<in> edges modules}
          \<union> {mod_name} \<times> (set (dependencies m) - {e})"
      by (simp add: ms'_def edges_update d_def)
    have em: "\<And>b. (mod_name, b) \<in> edges modules \<longleftrightarrow> b \<in> set (dependencies m)"
      using m by (simp add: edges_iff)
    have sub: "edges ms' \<subseteq> edges modules"
      unfolding ed using em by auto
    have p1: "(mod_name, c) \<in> edges ms'" unfolding ed using c(1,2) by simp
    have p2: "(c, e) \<in> edges ms'" unfolding ed using c(3,4) cn by (auto simp: edges_iff)
    have ne: "(mod_name, e) \<in> (edges ms')\<^sup>*"
      using p1 p2 by (meson r_into_rtrancl rtrancl_trans)
    have sup: "edges modules \<subseteq> (edges ms')\<^sup>*"
    proof
      fix p assume p: "p \<in> edges modules"
      obtain a b where ab: "p = (a, b)" by (cases p)
      show "p \<in> (edges ms')\<^sup>*"
      proof (cases "a = mod_name \<and> b = e")
        case True
        with ne ab show ?thesis by simp
      next
        case False
        with p ab em have "(a, b) \<in> edges ms'" unfolding ed by auto
        with ab show ?thesis by auto
      qed
    qed
    have sh: "shrinks modules ms'"
      unfolding ms'_def using m by (rule shrinks_update) (simp add: d_def)
    have k': "mod_name \<in> keys ms'" by (simp add: ms'_def)
    have nd': "no_dangling ms'" using sh "1.prems"(2) by (rule shrinks_no_dangling)
    have ns': "(mod_name, mod_name) \<notin> edges ms'" using sub "1.prems"(3) by auto
    from "1.IH"[OF m r Some sr, folded ms'_def, OF k' nd' ns' ok] obtain ms1 where
      r1: "eliminate_loop ord ms' mod_name = Inr ms1"
      and s1: "edges ms1 \<subseteq> edges ms'" and t1: "edges ms' \<subseteq> (edges ms1)\<^sup>*"
      by (elim exE conjE)
    have "eliminate_loop ord modules mod_name = Inr ms1"
      using m r Some sr r1
      by (simp add: eliminate_loop.simps[of ord modules mod_name] ms'_def)
    moreover have "edges ms1 \<subseteq> edges modules" using s1 sub by simp
    moreover have "edges modules \<subseteq> (edges ms1)\<^sup>*"
      using sup rtrancl_subset_rtrancl[OF t1] by blast
    ultimately show ?thesis by blast
  qed
qed

lemma shrinks_keys_set: "shrinks ms ms' \<Longrightarrow> keys ms' = keys ms"
  using arg_cong[OF shrinks_keys, of ms ms' set] by (simp add: keys_def)

lemma prune_loop_terminates:
  assumes ok: "iter_ok ord" and cf: "cycle_free_from ms0 root"
    and nd0: "no_dangling ms0" and rk: "root \<in> keys ms0"
  shows "prune_inv ms0 root ms q \<Longrightarrow>
    \<exists>ms'. prune_loop ord ms q = Some (Inr ms') \<and> prune_inv ms0 root ms' []"
  using wf_mult1[OF wf_prune_order[OF cf]]
proof (induction "mset q" arbitrary: ms q rule: wf_induct_rule)
  case less
  note inv = less.prems
  from inv have sh: "shrinks ms0 ms" and sub: "edges ms \<subseteq> edges ms0"
    and sup: "edges ms0 \<subseteq> (edges ms)\<^sup>*"
    and qr: "\<forall>n \<in> set q. (root, n) \<in> (edges ms0)\<^sup>*"
    by (simp_all add: prune_inv_def)
  show ?case
  proof (cases "q = []")
    case True
    then have "prune_loop ord ms q = Some (Inr ms)"
      by (subst prune_loop.simps) simp
    with inv True show ?thesis by simp
  next
    case False
    define n where "n = last q"
    have nq: "n \<in> set q" using False by (simp add: n_def)
    have nr: "(root, n) \<in> (edges ms0)\<^sup>*" using qr nq by simp
    have nk0: "n \<in> keys ms0" using nd0 rk nr by (rule reach_in_keys)
    have nk: "n \<in> keys ms" using nk0 shrinks_keys_set[OF sh] by simp
    have nd: "no_dangling ms" using sh nd0 by (rule shrinks_no_dangling)
    have nn: "(n, n) \<notin> edges ms"
    proof
      assume "(n, n) \<in> edges ms"
      then have "(n, n) \<in> (edges ms0)\<^sup>+" using sub by auto
      with cf nr show False by (auto simp: cycle_free_from_def reachable_def)
    qed
    from eliminate_loop_good[OF ok nk nd nn] obtain ms1 where
      e: "eliminate_loop ord ms n = Inr ms1" and s1: "edges ms1 \<subseteq> edges ms"
      and t1: "edges ms \<subseteq> (edges ms1)\<^sup>*"
      by (elim exE conjE)
    have sh1: "shrinks ms ms1" using e by (rule eliminate_loop_shrinks)
    have "n \<in> keys ms1" using nk shrinks_keys_set[OF sh1] by simp
    then obtain m1 where m1: "map_of ms1 n = Some m1" using keys_map_of by blast
    define q' where "q' = butlast q @ ord (dependencies m1)"
    have dep_edge: "(n, d) \<in> edges ms0" if "d \<in> set (dependencies m1)" for d
    proof -
      have "(n, d) \<in> edges ms1" using m1 that by (auto simp: edges_iff)
      with s1 sub show ?thesis by blast
    qed
    have inv': "prune_inv ms0 root ms1 q'"
      unfolding prune_inv_def
    proof (intro conjI ballI)
      show "shrinks ms0 ms1" using sh sh1 by (rule shrinks_trans)
      show "edges ms1 \<subseteq> edges ms0" using s1 sub by simp
      show "edges ms0 \<subseteq> (edges ms1)\<^sup>*"
        using sup rtrancl_subset_rtrancl[OF t1] by blast
    next
      fix x assume "x \<in> set q'"
      then consider "x \<in> set (butlast q)" | "x \<in> set (dependencies m1)"
        by (auto simp: q'_def iter_ok_set[OF ok])
      then show "(root, x) \<in> (edges ms0)\<^sup>*"
      proof cases
        case 1
        then have "x \<in> set q" by (rule in_set_butlastD)
        with qr show ?thesis by simp
      next
        case 2
        from dep_edge[OF 2] nr show ?thesis by (rule rtrancl_into_rtrancl[rotated])
      qed
    qed
    have mq: "mset q = add_mset n (mset (butlast q))"
      using False append_butlast_last_id[of q] unfolding n_def
      by (metis mset.simps(2) mset_rev rev.simps(2) rev_rev_ident union_mset_add_mset_right mset_append add.right_neutral mset.simps(1))
    have mq': "mset q' = mset (butlast q) + mset (dependencies m1)"
      using ok by (simp add: q'_def iter_ok_def)
    have "(mset q', mset q) \<in> mult1 (prune_order ms0 root)"
      unfolding mq mq'
    proof (rule mult1I[OF refl refl])
      fix b assume "b \<in># mset (dependencies m1)"
      then show "(b, n) \<in> prune_order ms0 root"
        using dep_edge nr by (simp add: prune_order_def)
    qed
    from less.hyps[OF this inv'] obtain ms' where
      r: "prune_loop ord ms1 q' = Some (Inr ms')" and i: "prune_inv ms0 root ms' []"
      by (elim exE conjE)
    have "prune_loop ord ms q = Some (Inr ms')"
      using False e m1 r by (subst prune_loop.simps) (simp add: n_def q'_def)
    with i show ?thesis by simp
  qed
qed

lemma prune_inv_init:
  "root \<in> keys ms \<Longrightarrow> prune_inv ms root ms [root]"
  by (simp add: prune_inv_def shrinks_refl r_into_rtrancl subsetI)

lemma prune_inv_reach:
  assumes "prune_inv ms0 root ms q"
  shows "(edges ms)\<^sup>* = (edges ms0)\<^sup>*"
proof -
  from assms have a: "edges ms \<subseteq> edges ms0" and b: "edges ms0 \<subseteq> (edges ms)\<^sup>*"
    by (simp_all add: prune_inv_def)
  show ?thesis
    using rtrancl_mono[OF a] rtrancl_subset_rtrancl[OF b] by blast
qed

lemma acyclic_cycle_free: "acyclic (edges ms) \<Longrightarrow> cycle_free_from ms root"
  by (simp add: cycle_free_from_def acyclic_def)

lemma prune_missing_root:
  "root \<notin> keys ms \<Longrightarrow> prune ord ms root = Some (Inl (KeyError root))"
proof -
  assume "root \<notin> keys ms"
  then have "map_of ms root = None"
    by (simp add: keys_def map_of_eq_None_iff)
  then have "eliminate_loop ord ms root = Inl (KeyError root)"
    by (simp add: eliminate_loop.simps[of ord ms root])
  then show ?thesis
    unfolding prune_def by (subst prune_loop.simps) simp
qed

lemma prune_preserves_reach_from:
  assumes "iter_ok ord" "cycle_free_from ms root" "no_dangling ms" "root \<in> keys ms"
  shows "\<exists>ms'. prune ord ms root = Some (Inr ms') \<and> shrinks ms ms'
       \<and> (\<forall>a b. reachable ms' a b \<longleftrightarrow> reachable ms a b)"
proof -
  from prune_loop_terminates[OF assms prune_inv_init[OF assms(4)]] obtain ms' where
    r: "prune_loop ord ms [root] = Some (Inr ms')" and i: "prune_inv ms root ms' []"
    by (elim exE conjE)
  have "(edges ms')\<^sup>* = (edges ms)\<^sup>*" using i by (rule prune_inv_reach)
  moreover have "shrinks ms ms'" using i by (simp add: prune_inv_def)
  ultimately show ?thesis using r by (simp add: prune_def reachable_def)
qed

lemma ex_diamond_acyclic: "acyclic (edges ex_diamond)"
proof (rule acyclicI_order[where f = "\<lambda>n. if n = ''A'' then 2 else if n = ''D'' then 0 else (1::nat)"])
  fix a b assume "(a, b) \<in> edges ex_diamond"
  then show "(if b = ''A'' then 2 else if b = ''D'' then 0 else (1::nat))
      < (if a = ''A'' then 2 else if a = ''D'' then 0 else (1::nat))"
    by (auto simp: edges_def ex_diamond_def split: if_splits)
qed

text \<open>
  Claim C2. For an acyclic registry with no dangling edges, under any iteration order: when
  the root is a key, the pruning phase of \<^verbatim>\<open>collapse_modules\<close> returns, and a name is
  reachable from the root in the registry it leaves exactly when it was reachable before;
  when the root is not a key, the first lookup raises \<^verbatim>\<open>KeyError\<close>.
\<close>

theorem prune_preserves_reachability:
  assumes "iter_ok ord" "acyclic (edges ms)" "no_dangling ms"
  shows "(root \<in> keys ms \<longrightarrow>
           (\<exists>ms'. prune ord ms root = Some (Inr ms')
              \<and> (\<forall>n. reachable ms' root n \<longleftrightarrow> reachable ms root n)))
       \<and> (root \<notin> keys ms \<longrightarrow> prune ord ms root = Some (Inl (KeyError root)))"
proof (intro conjI impI)
  assume k: "root \<in> keys ms"
  have cf: "cycle_free_from ms root" using assms(2) by (rule acyclic_cycle_free)
  from prune_preserves_reach_from[OF assms(1) cf assms(3) k]
  show "\<exists>ms'. prune ord ms root = Some (Inr ms')
              \<and> (\<forall>n. reachable ms' root n \<longleftrightarrow> reachable ms root n)"
    by blast
next
  assume "root \<notin> keys ms"
  then show "prune ord ms root = Some (Inl (KeyError root))" by (rule prune_missing_root)
qed

theorem prune_preserves_reachability_witness:
  "iter_ok id \<and> acyclic (edges ex_diamond) \<and> no_dangling ex_diamond
   \<and> ''A'' \<in> keys ex_diamond
   \<and> prune id ex_diamond ''A'' = Some (Inr ex_diamond_pruned)
   \<and> (\<forall>n. reachable ex_diamond_pruned ''A'' n = reachable ex_diamond ''A'' n)"
proof -
  have 1: "iter_ok id" by (simp add: iter_ok_def)
  have 3: "no_dangling ex_diamond" by (simp add: no_dangling_def ex_diamond_def keys_def)
  have 4: "''A'' \<in> keys ex_diamond" by (simp add: keys_def ex_diamond_def)
  from prune_preserves_reachability[OF 1 ex_diamond_acyclic 3, of "''A''"] 4 ex_diamond_run
  have "\<forall>n. reachable ex_diamond_pruned ''A'' n = reachable ex_diamond ''A'' n"
    by simp
  with 1 ex_diamond_acyclic 3 4 ex_diamond_run show ?thesis by simp
qed

section \<open>The pipeline on an example\<close>

lemma ex_built_run: "get_modules ex_tracer ''a'' = Some (Inr (ex_built, ''a''))"
  by (simp add: get_modules_def get_modules_any_def build_loop.simps pop_at_def pop_last_def
      process_pkg_def module_name_of_def ex_tracer_def Module_init_def set_add_def Let_def
      ex_built_def)

lemma ex_built_first_run:
  "get_modules_any pop_first ex_tracer ''a'' = Some (Inr (ex_built_first, ''a''))"
  by (simp add: get_modules_any_def build_loop.simps pop_at_def pop_first_def
      process_pkg_def module_name_of_def ex_tracer_def Module_init_def set_add_def Let_def
      ex_built_first_def)

lemma ex_built_collapse_iter:
  "collapse_iter 1000 id ex_built ''a'' = Inr (Some (ex_built_collapsed, ''a''))"
  by (simp add: collapse_iter_def detect_loop.simps list_index_def
      collapse_step_def ex_built_def ex_built_collapsed_def Module_init_def store_def keys_def
      set_update_def set_add_def set_remove_def rename_dependency_def rename_in_def Let_def)

lemma ex_built_prune:
  "prune id ex_built_collapsed ''a'' = Some (Inr ex_built_pruned)"
  by (simp add: prune_def prune_loop.simps eliminate_loop.simps dependency_can_be_removed_def
      set_remove_def ex_built_collapsed_def ex_built_pruned_def)

section \<open>Invariants along the pipeline, and the order of the queue\<close>

lemma shrinks_no_self_loops:
  assumes "shrinks ms ms'" "no_self_loops ms"
  shows "no_self_loops ms'"
proof -
  have "\<forall>p' \<in> set ms'. \<exists>p \<in> set ms. name (snd p') = name (snd p)
      \<and> set (dependencies (snd p')) \<subseteq> set (dependencies (snd p))"
    using assms(1) unfolding shrinks_def
    by (induction rule: list_all2_induct) auto
  with assms(2) show ?thesis
    unfolding no_self_loops_def by fastforce
qed

lemma pick_ok_pop_last: "pick_ok pop_last"
  by (simp add: pick_ok_def pop_last_def)

lemma pick_ok_pop_first: "pick_ok pop_first"
  by (simp add: pick_ok_def pop_first_def)

lemma get_modules_any_inv:
  assumes "get_modules_any pick t root_pkg = Some (Inr (ms, r))"
  shows "build_inv t root_pkg ms [] \<and> r = module_name_of root_pkg
    \<and> build_loop pick t [] [root_pkg] = Some (Inr ms)"
proof -
  from assms have b: "build_loop pick t [] [root_pkg] = Some (Inr ms)"
    and r: "r = module_name_of root_pkg"
    by (auto simp: get_modules_any_def split: option.splits sum.splits)
  from build_loop_inv[OF b, of root_pkg] build_inv_init[of t root_pkg]
  have "build_inv t root_pkg ms []" by simp
  with b r show ?thesis by simp
qed

lemma get_modules_reg_inv:
  assumes "get_modules t root_pkg = Some (Inr (ms, r))"
  shows "reg_inv ms"
  using get_modules_any_inv[OF assms[unfolded get_modules_def]] build_final_reg_inv by blast

lemma pipeline_inv:
  assumes "iter_ok ord" "get_modules t root_pkg = Some (Inr (ms0, r0))"
    "collapse_reach room ord (ms0, r0) (ms, r)"
  shows "reg_inv ms"
  using collapse_reach_inv[OF assms(1,3)] get_modules_reg_inv[OF assms(2)] by simp

lemma prune_reg_inv_parts:
  assumes "prune ord ms r = Some (Inr ms')" "reg_inv ms"
  shows "no_dangling ms'" "no_self_loops ms'"
proof -
  have s: "shrinks ms ms'"
    using prune_loop_shrinks[OF assms(1)[unfolded prune_def]] by simp
  show "no_dangling ms'" using s assms(2) by (auto simp: reg_inv_def intro: shrinks_no_dangling)
  show "no_self_loops ms'" using s assms(2) by (auto simp: reg_inv_def intro: shrinks_no_self_loops)
qed

lemma ex_built_reach: "collapse_reach 1000 id (ex_built, ''a'') (ex_built_collapsed, ''a'')"
  using collapse_reach.step[OF collapse_reach.start ex_built_collapse_iter] .

text \<open>
  Claim C3. After \<^verbatim>\<open>get_modules\<close> has returned a registry, in that registry, in the registry
  after each full iteration of the collapse loop (whatever room the recursion limit leaves),
  and in the registry that the pruning phase returns, every name in a module's
  \<^verbatim>\<open>dependencies\<close> is a key of the registry.
\<close>

theorem no_dangling_edges:
  assumes "iter_ok ord" "get_modules t root_pkg = Some (Inr (ms0, r0))"
  shows "no_dangling ms0
    \<and> (\<forall>ms r. collapse_reach room ord (ms0, r0) (ms, r) \<longrightarrow>
          no_dangling ms
          \<and> (\<forall>ms'. prune ord ms r = Some (Inr ms') \<longrightarrow> no_dangling ms'))"
proof (intro conjI allI impI)
  show "no_dangling ms0"
    using get_modules_reg_inv[OF assms(2)] by (simp add: reg_inv_def)
next
  fix ms r assume "collapse_reach room ord (ms0, r0) (ms, r)"
  then show "no_dangling ms"
    using pipeline_inv[OF assms] by (simp add: reg_inv_def)
next
  fix ms r ms' assume "collapse_reach room ord (ms0, r0) (ms, r)" "prune ord ms r = Some (Inr ms')"
  then show "no_dangling ms'"
    using pipeline_inv[OF assms] prune_reg_inv_parts(1) by blast
qed

theorem no_dangling_edges_witness:
  "iter_ok id \<and> get_modules ex_tracer ''a'' = Some (Inr (ex_built, ''a''))
   \<and> no_dangling ex_built
   \<and> collapse_reach 1000 id (ex_built, ''a'') (ex_built_collapsed, ''a'')
   \<and> no_dangling ex_built_collapsed
   \<and> prune id ex_built_collapsed ''a'' = Some (Inr ex_built_pruned)
   \<and> no_dangling ex_built_pruned"
  using no_dangling_edges[OF iter_ok_id ex_built_run] ex_built_reach ex_built_prune
    iter_ok_id ex_built_run
  by blast

text \<open>
  Claim C4. After \<^verbatim>\<open>get_modules\<close> has returned a registry, in that registry, in the registry
  after each full iteration of the collapse loop (whatever room the recursion limit leaves),
  and in the registry that the pruning phase returns, no module's \<^verbatim>\<open>dependencies\<close> holds
  the module's own name.
\<close>

theorem no_self_loops_anywhere:
  assumes "iter_ok ord" "get_modules t root_pkg = Some (Inr (ms0, r0))"
  shows "no_self_loops ms0
    \<and> (\<forall>ms r. collapse_reach room ord (ms0, r0) (ms, r) \<longrightarrow>
          no_self_loops ms
          \<and> (\<forall>ms'. prune ord ms r = Some (Inr ms') \<longrightarrow> no_self_loops ms'))"
proof (intro conjI allI impI)
  show "no_self_loops ms0"
    using get_modules_reg_inv[OF assms(2)] by (simp add: reg_inv_def)
next
  fix ms r assume "collapse_reach room ord (ms0, r0) (ms, r)"
  then show "no_self_loops ms"
    using pipeline_inv[OF assms] by (simp add: reg_inv_def)
next
  fix ms r ms' assume "collapse_reach room ord (ms0, r0) (ms, r)" "prune ord ms r = Some (Inr ms')"
  then show "no_self_loops ms'"
    using pipeline_inv[OF assms] prune_reg_inv_parts(2) by blast
qed

theorem no_self_loops_anywhere_witness:
  "iter_ok id \<and> get_modules ex_tracer ''a'' = Some (Inr (ex_built, ''a''))
   \<and> no_self_loops ex_built
   \<and> collapse_reach 1000 id (ex_built, ''a'') (ex_built_collapsed, ''a'')
   \<and> no_self_loops ex_built_collapsed
   \<and> prune id ex_built_collapsed ''a'' = Some (Inr ex_built_pruned)
   \<and> no_self_loops ex_built_pruned"
  using no_self_loops_anywhere[OF iter_ok_id ex_built_run] ex_built_reach ex_built_prune
    iter_ok_id ex_built_run
  by blast

text \<open>
  Claim C9. Fix the tracer and the root package. If one run of the builder, choosing the
  queue entry to pop from the state of the loop in any way, returns a registry and a root
  name, then every run that chooses in another way returns too, with the same root name
  and a registry of the same graph: the same module names, and under each name the same
  set of packages and the same set of dependencies. \<^verbatim>\<open>get_modules\<close>, which pops the last
  entry, is one of these runs.
\<close>

theorem get_modules_order_independent:
  assumes "get_modules_any pick1 t root_pkg = Some (Inr (ms1, r1))" and "pick_ok pick2"
  shows "(\<exists>ms2. get_modules_any pick2 t root_pkg = Some (Inr (ms2, r1)) \<and> same_graph ms1 ms2)
    \<and> (\<exists>ms. get_modules t root_pkg = Some (Inr (ms, r1)) \<and> same_graph ms1 ms)"
proof -
  from get_modules_any_inv[OF assms(1)] have inv1: "build_inv t root_pkg ms1 []"
    and r1: "r1 = module_name_of root_pkg" by simp_all
  have tr: "traced t root_pkg = processed ms1" using build_inv_final[OF inv1] by simp
  have fin: "finite (traced t root_pkg)" unfolding tr by (rule finite_processed)
  have succ: "\<forall>p \<in> traced t root_pkg. \<exists>l. t p = Inr l"
    unfolding tr using build_inv_D(5)[OF inv1] by blast
  have run: "\<exists>ms2. get_modules_any pick t root_pkg = Some (Inr (ms2, r1)) \<and> same_graph ms1 ms2"
    if "pick_ok pick" for pick
  proof -
    from build_loop_terminates[OF fin succ that build_inv_init] obtain ms2 where
      b: "build_loop pick t [] [root_pkg] = Some (Inr ms2)" and i: "build_inv t root_pkg ms2 []"
      by (elim exE conjE)
    have "get_modules_any pick t root_pkg = Some (Inr (ms2, r1))"
      using b r1 by (simp add: get_modules_any_def)
    moreover have "same_graph ms1 ms2" using inv1 i by (rule build_final_same_graph)
    ultimately show ?thesis by blast
  qed
  from run[OF assms(2)] run[OF pick_ok_pop_last] show ?thesis
    by (simp add: get_modules_def)
qed

theorem get_modules_order_independent_witness:
  "get_modules_any pop_first ex_tracer ''a'' = Some (Inr (ex_built_first, ''a''))
   \<and> pick_ok pop_last
   \<and> get_modules ex_tracer ''a'' = Some (Inr (ex_built, ''a''))
   \<and> same_graph ex_built_first ex_built
   \<and> ex_built_first \<noteq> ex_built"
proof -
  from get_modules_order_independent[OF ex_built_first_run pick_ok_pop_last] ex_built_run
  have "same_graph ex_built_first ex_built" by simp
  moreover have "ex_built_first \<noteq> ex_built" by (simp add: ex_built_first_def ex_built_def)
  ultimately show ?thesis
    using ex_built_first_run pick_ok_pop_last ex_built_run by simp
qed

section \<open>Memory attribution\<close>

text \<open>
  Claim C6. When both probes of \<^verbatim>\<open>_set_rss_for_module\<close> return and the deps-only probe
  reads more than the total probe, the call returns normally, \<^verbatim>\<open>own_rss\<close> of the module
  is 0, one warning with the negative difference is appended to the log, and the loop of
  \<^verbatim>\<open>set_rss_for_modules\<close> goes on with the modules that are left.
\<close>

theorem negative_delta_clamped:
  assumes "map_of modules nm = Some m"
    and "imports_memory_usage ord run (packages m) w = (Inr tot, w1)"
    and "gather_deps (AList.update nm (m\<lparr>total_rss := tot\<rparr>) modules)
           (ord (dependencies m)) [] = Inr deps"
    and "imports_memory_usage ord run deps w1 = (Inr deps_rss, w2)"
    and "tot < deps_rss"
  shows "\<exists>modules'.
      set_rss_for_module ord run modules nm w warnings
        = Inr (modules', w2, warnings @ [NegativeOwnRss nm (tot - deps_rss)])
    \<and> map_of modules' nm = Some (m\<lparr>total_rss := tot, own_rss := 0\<rparr>)
    \<and> set_rss_loop ord run (nm # rest) modules w warnings
        = set_rss_loop ord run rest modules' w2
            (warnings @ [NegativeOwnRss nm (tot - deps_rss)])"
  using assms by (simp add: set_rss_for_module_def update_conv')

theorem negative_delta_clamped_witness:
  "map_of ex_pair ''a'' = Some (snd (hd ex_pair))
   \<and> imports_memory_usage id ex_noisy_probe [''a''] 0 = (Inr 100, 1)
   \<and> imports_memory_usage id ex_noisy_probe [''b''] 1 = (Inr 120, 2)
   \<and> set_rss_for_modules id ex_noisy_probe ex_pair 0 =
       Inr ([(''a'', \<lparr>name = ''a'', packages = [''a''], dependencies = [''b''],
                       own_rss = 0, total_rss = 100\<rparr>),
             (''b'', \<lparr>name = ''b'', packages = [''b''], dependencies = [],
                       own_rss = 0, total_rss = 120\<rparr>)],
            4, [NegativeOwnRss ''a'' (- 20)])"
proof -
  have 1: "map_of ex_pair ''a'' = Some (snd (hd ex_pair))"
    by (simp add: ex_pair_def)
  have 2: "imports_memory_usage id ex_noisy_probe (packages (snd (hd ex_pair))) 0 = (Inr 100, 1)"
    by (simp add: imports_memory_usage_def ex_noisy_probe_def ex_pair_def)
  have 3: "gather_deps (AList.update ''a'' ((snd (hd ex_pair))\<lparr>total_rss := 100\<rparr>) ex_pair)
             (id (dependencies (snd (hd ex_pair)))) [] = Inr [''b'']"
    by (simp add: ex_pair_def set_update_def set_add_def)
  have 4: "imports_memory_usage id ex_noisy_probe [''b''] 1 = (Inr 120, 2)"
    by (simp add: imports_memory_usage_def ex_noisy_probe_def)
  obtain modules' where
    a: "map_of modules' ''a'' = Some ((snd (hd ex_pair))\<lparr>total_rss := 100, own_rss := 0\<rparr>)"
    and b: "set_rss_loop id ex_noisy_probe (''a'' # [''b'']) ex_pair 0 []
        = set_rss_loop id ex_noisy_probe [''b''] modules' 2 ([] @ [NegativeOwnRss ''a'' (100 - 120)])"
    using negative_delta_clamped[OF 1 2 3 4, of "[]" "[''b'']"] by auto
  have "set_rss_loop id ex_noisy_probe (''a'' # [''b'']) ex_pair 0 [] =
       Inr ([(''a'', \<lparr>name = ''a'', packages = [''a''], dependencies = [''b''],
                       own_rss = 0, total_rss = 100\<rparr>),
             (''b'', \<lparr>name = ''b'', packages = [''b''], dependencies = [],
                       own_rss = 0, total_rss = 120\<rparr>)],
            4, [NegativeOwnRss ''a'' (- 20)])"
    by (simp add: set_rss_for_module_def ex_pair_def imports_memory_usage_def
        ex_noisy_probe_def set_update_def set_add_def)
  then show ?thesis
    using 1 2 4 by (simp add: set_rss_for_modules_def ex_pair_def)
qed

text \<open>
  Claim C7. For a module with no dependencies, when the probe of the empty script reads 0
  and the probe of the module's own packages returns a reading that is not negative,
  \<^verbatim>\<open>_set_rss_for_module\<close> returns normally, records no warning, and leaves \<^verbatim>\<open>own_rss\<close>
  equal to \<^verbatim>\<open>total_rss\<close>.
\<close>

theorem leaf_own_rss_is_total_rss:
  assumes "iter_ok ord"
    and "map_of modules nm = Some m"
    and "dependencies m = []"
    and "\<forall>w. fst (run [] w) = (0, 0)"
    and "imports_memory_usage ord run (packages m) w = (Inr tot, w1)"
    and "0 \<le> tot"
  shows "\<exists>modules' w2 m'.
      set_rss_for_module ord run modules nm w warnings = Inr (modules', w2, warnings)
    \<and> map_of modules' nm = Some m'
    \<and> total_rss m' = tot
    \<and> own_rss m' = total_rss m'"
proof -
  obtain w2 where r: "run [] w1 = ((0, 0), w2)"
    using assms(4) by (metis prod.collapse)
  have "imports_memory_usage ord run [] w1 = (Inr 0, w2)"
    using r assms(1) by (simp add: imports_memory_usage_def iter_ok_Nil)
  then show ?thesis
    using assms by (simp add: set_rss_for_module_def update_conv' iter_ok_Nil)
qed

theorem leaf_own_rss_is_total_rss_witness:
  "iter_ok rev \<and> (\<forall>w. fst (ex_probe [] w) = (0, 0))
    \<and> map_of ex_leaf ''b'' = Some (snd (hd ex_leaf))
    \<and> dependencies (snd (hd ex_leaf)) = []
    \<and> imports_memory_usage rev ex_probe (packages (snd (hd ex_leaf))) 7 = (Inr 107, 8)
    \<and> set_rss_for_module rev ex_probe ex_leaf ''b'' 7 [] =
       Inr ([(''b'', \<lparr>name = ''b'', packages = [''b'', ''b.c''], dependencies = [],
                       own_rss = 107, total_rss = 107\<rparr>)], 9, [])"
proof -
  have 1: "iter_ok rev" by (simp add: iter_ok_def)
  have 2: "\<forall>w. fst (ex_probe [] w) = (0, 0)" by (simp add: ex_probe_def)
  have 3: "map_of ex_leaf ''b'' = Some (snd (hd ex_leaf))"
    by (simp add: ex_leaf_def)
  have 4: "dependencies (snd (hd ex_leaf)) = []"
    by (simp add: ex_leaf_def)
  have 5: "imports_memory_usage rev ex_probe (packages (snd (hd ex_leaf))) 7 = (Inr 107, 8)"
    by (simp add: imports_memory_usage_def ex_probe_def ex_leaf_def)
  have 6: "(0::int) \<le> 107" by simp
  obtain modules' w2 m' where
    "set_rss_for_module rev ex_probe ex_leaf ''b'' 7 [] = Inr (modules', w2, [])"
    "map_of modules' ''b'' = Some m'" "own_rss m' = total_rss m'"
    using leaf_own_rss_is_total_rss[OF 1 3 4 2 5 6, of "[]"] by auto
  moreover have "set_rss_for_module rev ex_probe ex_leaf ''b'' 7 [] =
       Inr ([(''b'', \<lparr>name = ''b'', packages = [''b'', ''b.c''], dependencies = [],
                       own_rss = 107, total_rss = 107\<rparr>)], 9, [])"
    by (simp add: set_rss_for_module_def ex_leaf_def imports_memory_usage_def ex_probe_def)
  ultimately show ?thesis using 1 2 3 4 5 by simp
qed

section \<open>Renderer\<close>

lemma print_dot_nodes_counter:
  "fst (print_dot_nodes counter node_names ms) = map (\<lambda>m. dot_node_name counter (name m)) ms"
proof (induction ms arbitrary: node_names)
  case Nil
  show ?case by simp
next
  case (Cons m ms)
  show ?case
    using Cons.IH[of "AList.update (name m) (dot_node_name counter (name m)) node_names"]
    by (auto simp: Let_def split: prod.splits)
qed

text \<open>
  Claim C8. The registry \<open>ex_clash\<close> has two modules with different names, the composite
  \<^verbatim>\<open>A\nB\<close> and the module \<^verbatim>\<open>A_B\<close>; \<^verbatim>\<open>print_dot\<close> gives both the node identifier
  \<^verbatim>\<open>node0_A_B\<close>, because the counter stays 0.
\<close>

theorem print_dot_node_ids_collide:
  "distinct (map fst ex_clash) \<and> distinct (map (name \<circ> snd) ex_clash)
   \<and> print_dot_node_ids ex_clash = [''node0_A_B'', ''node0_A_B'']
   \<and> \<not> distinct (print_dot_node_ids ex_clash)"
  by (simp add: ex_clash_def wf_registry_def print_dot_node_ids_def dot_node_name_def
      dot_char_ok_def Let_def)

end
